theory Spec2Isabelle
  imports Main "HOL-Library.Word" "HOL-Library.Sublist"
begin

unbundle bit_operations_syntax

section \<open>Data model of the event loop (src/unix/core.c, src/unix/linux-core.c)\<close>

text \<open>
  C \<open>unsigned int\<close> and \<open>int\<close> values are 32-bit words (\<open>sint\<close> reads an \<open>int\<close>),
  \<open>uint64_t\<close> values are 64-bit words. Pointers to io-watchers and handles are
  addresses of their own types; a \<open>void*\<close> slot of the watcher table can also hold the
  address of the in-flight event array or an integer cast to a pointer.
\<close>

type_synonym u32 = "32 word"
type_synonym u64 = "64 word"

text \<open>
  How a call can end without returning: \<open>abort()\<close>, a failed \<open>assert\<close>, a memory access
  outside of what C defines, and \<open>Blocked\<close> when the kernel never wakes the call up.
\<close>

datatype error = Aborted | Assertion_failed | Undefined_behaviour | Blocked

datatype wptr = Signal_io_watcher | Io_watcher nat

type_synonym hptr = nat

datatype voidp = NULL | Watcher wptr | Events_array | Uintptr nat | Garbage

text \<open>
  The event bits of \<open><poll.h>\<close> on Linux. Modelled from the spec: \<open>UV__POLLRDHUP\<close> and
  \<open>UV__POLLPRI\<close> are defined in internal.h, which is not part of the sources; they are
  the read-hangup and priority bits of the permitted mask, with the values of
  \<open>POLLRDHUP\<close> and \<open>POLLPRI\<close>.
\<close>

definition POLLIN :: u32 where "POLLIN = 0x001"
definition UV__POLLPRI :: u32 where "UV__POLLPRI = 0x002"
definition POLLOUT :: u32 where "POLLOUT = 0x004"
definition POLLERR :: u32 where "POLLERR = 0x008"
definition POLLHUP :: u32 where "POLLHUP = 0x010"
definition UV__POLLRDHUP :: u32 where "UV__POLLRDHUP = 0x2000"
definition INT_MAX :: int where "INT_MAX = 2147483647"

text \<open>The mask \<open>POLLIN | POLLOUT | UV__POLLRDHUP | UV__POLLPRI\<close> of the permitted bits.\<close>

definition io_mask :: u32 where
  "io_mask = POLLIN OR POLLOUT OR UV__POLLRDHUP OR UV__POLLPRI"

text \<open>
  \<open>uv__io_t\<close>: the descriptor, the mask registered with the backend (\<open>events\<close>) and
  the mask wanted (\<open>pevents\<close>). Its callback is part of the environment below and its
  two queue links are read off the queues. \<open>epoll_event\<close> carries the ready events and
  \<open>data.fd\<close>. Of a handle the model keeps the type, the flags and whether a close
  callback is set.
\<close>

record uv__io_t =
  io_fd :: u32
  io_events :: u32
  io_pevents :: u32

record epoll_event =
  ev_events :: u32
  ev_fd :: u32

datatype uv_handle_type =
    UV_NAMED_PIPE | UV_TTY | UV_TCP | UV_UDP | UV_PREPARE | UV_CHECK | UV_IDLE
  | UV_ASYNC | UV_TIMER | UV_PROCESS | UV_FS_EVENT | UV_POLL | UV_FS_POLL
  | UV_SIGNAL | UV_UNKNOWN_HANDLE

record uv_handle_t =
  h_type :: uv_handle_type
  h_flags :: u32
  h_close_cb :: bool

text \<open>
  \<open>uv_loop_t\<close>. Modelled from the spec: the macros of queue.h, which is not part of the
  sources, implement intrusive doubly-linked queues; a queue is the list of the objects
  linked into it, head first. \<open>closing_handles\<close> is the chain of handles linked by
  \<open>next_closing\<close>.
  \<open>watchers\<close> is \<open>None\<close> for the null pointer and otherwise the memory of the array,
  indexed from 0; \<open>timer_heap\<close> keeps the deadlines of the started timers.
\<close>

record uv_loop_t =
  time :: u64
  stop_flag :: u32
  active_handles :: u32
  active_reqs :: u32
  nfds :: u32
  nwatchers :: u32
  watchers :: "(nat \<Rightarrow> voidp) option"
  watcher_queue :: "wptr list"
  pending_queue :: "wptr list"
  idle_handles :: "hptr list"
  closing_handles :: "hptr list"
  handle_queue :: "hptr list"
  timer_heap :: "u64 list"

text \<open>
  The memory the loop works on: the loop itself, the io-watchers and handles by address,
  the event array of the running \<open>uv__io_poll\<close>, the local queue of the running
  \<open>uv__run_pending\<close>, the kernel's epoll interest list and its monotonic clock
  (nanoseconds).
\<close>

record world =
  loop :: uv_loop_t
  io :: "wptr \<Rightarrow> uv__io_t"
  handles :: "hptr \<Rightarrow> uv_handle_t"
  events_buf :: "nat \<Rightarrow> epoll_event"
  pq :: "wptr list"
  epoll :: "u32 \<rightharpoonup> u32"
  clock :: u64

section \<open>The watcher table\<close>

text \<open>\<open>next_power_of_two\<close>, on \<open>unsigned int\<close>.\<close>

definition next_power_of_two :: "u32 \<Rightarrow> u32" where
  "next_power_of_two val0 =
     (let val = val0 - 1;
          val = val OR drop_bit 1 val;
          val = val OR drop_bit 2 val;
          val = val OR drop_bit 4 val;
          val = val OR drop_bit 8 val;
          val = val OR drop_bit 16 val;
          val = val + 1
      in val)"

text \<open>\<open>p\<close> is the least power of two that is at least \<open>x\<close>.\<close>

definition is_next_pow2 :: "u32 \<Rightarrow> u32 \<Rightarrow> bool" where
  "is_next_pow2 x p \<longleftrightarrow>
     (\<exists>k\<le>31. p = 2 ^ k \<and> unat x \<le> 2 ^ k \<and> (\<forall>j. unat x \<le> 2 ^ j \<longrightarrow> k \<le> j))"

text \<open>The loop \<open>for (i = loop->nwatchers; i < nwatchers; i++) watchers[i] = NULL\<close>.\<close>

function clear_slots :: "nat \<Rightarrow> nat \<Rightarrow> (nat \<Rightarrow> voidp) \<Rightarrow> (nat \<Rightarrow> voidp)" where
  "clear_slots i n ws = (if i < n then clear_slots (i + 1) n (ws(i := NULL)) else ws)"
  by pat_completeness auto
termination
  by (relation "measure (\<lambda>(i, n, ws). n - i)") auto

declare clear_slots.simps [simp del]

text \<open>
  \<open>maybe_resize\<close>. \<open>alloc n\<close> tells whether \<open>uv__realloc\<close> can provide \<open>n\<close> slots; the
  reallocated array keeps the old contents, and the slots it never had hold garbage.
  The size \<open>nwatchers + 2\<close> is computed in \<open>unsigned int\<close>: when it wraps, the array is
  shorter than the range the function goes on to write.
\<close>

definition maybe_resize :: "(nat \<Rightarrow> bool) \<Rightarrow> uv_loop_t \<Rightarrow> u32 \<Rightarrow> error + uv_loop_t" where
  "maybe_resize alloc l len =
     (if len \<le> nwatchers l then Inr l
      else
        let (fake_watcher_list, fake_watcher_count) =
              (case watchers l of
                 Some ws \<Rightarrow> (ws (unat (nwatchers l)), ws (unat (nwatchers l) + 1))
               | None \<Rightarrow> (NULL, NULL));
            nw = next_power_of_two (len + 2) - 2
        in if \<not> alloc (unat (nw + 2)) then Inl Aborted
           else if unat (nw + 2) < unat nw + 2 then Inl Undefined_behaviour
           else
             let ws = (case watchers l of Some ws \<Rightarrow> ws | None \<Rightarrow> (\<lambda>_. Garbage));
                 ws = clear_slots (unat (nwatchers l)) (unat nw) ws;
                 ws = ws(unat nw := fake_watcher_list);
                 ws = ws(unat nw + 1 := fake_watcher_count)
             in Inr (l\<lparr>watchers := Some ws, nwatchers := nw\<rparr>))"

text \<open>Reading a slot of the table through \<open>loop->watchers[i]\<close>.\<close>

definition watchers_at :: "uv_loop_t \<Rightarrow> nat \<Rightarrow> voidp" where
  "watchers_at l i = (case watchers l of Some ws \<Rightarrow> ws i | None \<Rightarrow> Garbage)"

definition watchers_set :: "uv_loop_t \<Rightarrow> nat \<Rightarrow> voidp \<Rightarrow> uv_loop_t" where
  "watchers_set l i v = l\<lparr>watchers := map_option (\<lambda>ws. ws(i := v)) (watchers l)\<rparr>"

section \<open>Starting and stopping an io-watcher\<close>

text \<open>
  \<open>uv__io_start\<close> and \<open>uv__io_stop\<close>.
  \<open>QUEUE_EMPTY(&w->watcher_queue)\<close> holds when the watcher's link is tied to itself,
  that is when the watcher is in no queue; \<open>QUEUE_REMOVE\<close> followed by \<open>QUEUE_INIT\<close>
  takes it out of the queue it is in; \<open>QUEUE_INSERT_TAIL\<close> appends it.
\<close>

definition uv__io_start :: "(nat \<Rightarrow> bool) \<Rightarrow> world \<Rightarrow> wptr \<Rightarrow> u32 \<Rightarrow> error + world" where
  "uv__io_start alloc s w events =
     (if \<not> (0 = (events AND NOT io_mask)) then Inl Assertion_failed
      else if \<not> (0 \<noteq> events) then Inl Assertion_failed
      else if \<not> (0 \<le> sint (io_fd (io s w))) then Inl Assertion_failed
      else if \<not> (sint (io_fd (io s w)) < INT_MAX) then Inl Assertion_failed
      else
        let wr = (io s w)\<lparr>io_pevents := io_pevents (io s w) OR events\<rparr>;
            s = s\<lparr>io := (io s)(w := wr)\<rparr>
        in case maybe_resize alloc (loop s) (io_fd wr + 1) of
             Inl e \<Rightarrow> Inl e
           | Inr l \<Rightarrow>
               if io_events wr = io_pevents wr then Inr (s\<lparr>loop := l\<rparr>)
               else
                 let l = (if w \<notin> set (watcher_queue l)
                          then l\<lparr>watcher_queue := watcher_queue l @ [w]\<rparr> else l);
                     l = (if watchers_at l (unat (io_fd wr)) = NULL
                          then (watchers_set l (unat (io_fd wr)) (Watcher w))\<lparr>nfds := nfds l + 1\<rparr>
                          else l)
                 in Inr (s\<lparr>loop := l\<rparr>))"

definition uv__io_stop :: "world \<Rightarrow> wptr \<Rightarrow> u32 \<Rightarrow> error + world" where
  "uv__io_stop s w events =
     (if \<not> (0 = (events AND NOT io_mask)) then Inl Assertion_failed
      else if \<not> (0 \<noteq> events) then Inl Assertion_failed
      else if io_fd (io s w) = - 1 then Inr s
      else if \<not> (0 \<le> sint (io_fd (io s w))) then Inl Assertion_failed
      else if io_fd (io s w) \<ge> nwatchers (loop s) then Inr s
      else
        let wr = (io s w)\<lparr>io_pevents := io_pevents (io s w) AND NOT events\<rparr>;
            s = s\<lparr>io := (io s)(w := wr)\<rparr>;
            l = loop s
        in if io_pevents wr = 0 then
             let l = l\<lparr>watcher_queue := removeAll w (watcher_queue l)\<rparr>
             in if watchers_at l (unat (io_fd wr)) \<noteq> NULL then
                  if \<not> (watchers_at l (unat (io_fd wr)) = Watcher w) then Inl Assertion_failed
                  else if \<not> (nfds l > 0) then Inl Assertion_failed
                  else Inr (s\<lparr>loop := (watchers_set l (unat (io_fd wr)) NULL)\<lparr>nfds := nfds l - 1\<rparr>,
                               io := (io s)(w := wr\<lparr>io_events := 0\<rparr>)\<rparr>)
                else Inr (s\<lparr>loop := l\<rparr>)
           else if w \<notin> set (watcher_queue l)
             then Inr (s\<lparr>loop := l\<lparr>watcher_queue := watcher_queue l @ [w]\<rparr>\<rparr>)
           else Inr s)"

section \<open>The backend timeout\<close>

text \<open>
  Modelled from the spec: \<open>uv__next_timeout\<close> (timer.c is not part of the sources): the
  time until the earliest timer, clamped to a non-negative number of milliseconds, or
  \<open>-1\<close> (block without limit) when there are no timers.
\<close>

definition uv__next_timeout :: "uv_loop_t \<Rightarrow> int" where
  "uv__next_timeout l =
     (case timer_heap l of
        [] \<Rightarrow> - 1
      | t # ts \<Rightarrow>
          let earliest = fold min ts t
          in if earliest \<le> time l then 0 else uint (earliest - time l))"

text \<open>
  Modelled from the spec: the macros \<open>uv__has_active_handles\<close> and
  \<open>uv__has_active_reqs\<close> of uv-common.h, which is not part of the sources: the loop
  counts its active handles and its active requests, and there are some when the count
  is above zero.
\<close>

definition uv__has_active_handles :: "uv_loop_t \<Rightarrow> bool" where
  "uv__has_active_handles l \<longleftrightarrow> active_handles l > 0"

definition uv__has_active_reqs :: "uv_loop_t \<Rightarrow> bool" where
  "uv__has_active_reqs l \<longleftrightarrow> active_reqs l > 0"

definition uv_backend_timeout :: "uv_loop_t \<Rightarrow> int" where
  "uv_backend_timeout l =
     (if stop_flag l \<noteq> 0 then 0
      else if \<not> uv__has_active_handles l \<and> \<not> uv__has_active_reqs l then 0
      else if idle_handles l \<noteq> [] then 0
      else if pending_queue l \<noteq> [] then 0
      else if closing_handles l \<noteq> [] then 0
      else uv__next_timeout l)"

definition uv__loop_alive :: "uv_loop_t \<Rightarrow> bool" where
  "uv__loop_alive l \<longleftrightarrow>
     uv__has_active_handles l \<or> uv__has_active_reqs l \<or> closing_handles l \<noteq> []"

section \<open>Polling for I/O (linux-core.c)\<close>

text \<open>
  What the loop calls back, and what it calls in files that are not part of the sources,
  is a parameter of the model: \<open>io_cb w\<close> is the callback \<open>w->cb\<close> of an io-watcher,
  \<open>close_cb h\<close> the close callback of a handle, \<open>close_hook\<close> the close function of a
  handle type (\<open>uv__tcp_close\<close>, \<open>uv__timer_close\<close>, ...), \<open>finish_hook\<close> stands for
  \<open>uv__stream_destroy\<close> and \<open>uv__udp_finish_close\<close>; \<open>run_timers\<close>, \<open>run_idle\<close>,
  \<open>run_prepare\<close> and \<open>run_check\<close> are the phases of timer.c and loop-watcher.c;
  \<open>realloc_ok\<close> is the allocator and \<open>long_is_32_bits\<close> the platform test
  \<open>sizeof(int32_t) == sizeof(long)\<close>. Each of them may change the memory in any way, or
  end the process.
\<close>

record env =
  io_cb :: "wptr \<Rightarrow> u32 \<Rightarrow> world \<Rightarrow> error + world"
  close_cb :: "hptr \<Rightarrow> world \<Rightarrow> error + world"
  close_hook :: "uv_handle_type \<Rightarrow> hptr \<Rightarrow> world \<Rightarrow> error + world"
  finish_hook :: "uv_handle_type \<Rightarrow> hptr \<Rightarrow> world \<Rightarrow> error + world"
  run_timers :: "world \<Rightarrow> error + world"
  run_idle :: "world \<Rightarrow> error + world"
  run_prepare :: "world \<Rightarrow> error + world"
  run_check :: "world \<Rightarrow> error + world"
  realloc_ok :: "nat \<Rightarrow> bool"
  long_is_32_bits :: bool

text \<open>The callbacks the loop has made, in order; \<open>Iteration\<close> marks the start of a loop iteration.\<close>

datatype event = Io_cb wptr u32 | Close_cb hptr | Iteration

text \<open>
  Modelled from the spec: \<open>uv__update_time\<close> is defined in internal.h, which is not part
  of the sources. \<open>loop->time\<close> is the monotonic time in milliseconds; the comments of
  core.c and linux-core.c give the assignment as
  \<open>loop->time = uv__hrtime(UV_CLOCK_FAST) / 1000000\<close>.
\<close>

definition uv__update_time :: "world \<Rightarrow> world" where
  "uv__update_time s = s\<lparr>loop := (loop s)\<lparr>time := clock s div 1000000\<rparr>\<rparr>"

text \<open>
  The kernel side of \<open>epoll_ctl\<close> on the loop's backend descriptor, as the manual page
  gives it for an interest list: adding a registered descriptor fails with \<open>EEXIST\<close>,
  modifying or deleting an unregistered one with \<open>ENOENT\<close>.
\<close>

datatype errno = EEXIST | ENOENT | EINTR | EBADF | EINVAL

datatype epoll_op = EPOLL_CTL_ADD | EPOLL_CTL_MOD | EPOLL_CTL_DEL

definition epoll_ctl :: "world \<Rightarrow> epoll_op \<Rightarrow> u32 \<Rightarrow> u32 \<Rightarrow> errno option \<times> world" where
  "epoll_ctl s op fd ev =
     (case op of
        EPOLL_CTL_ADD \<Rightarrow>
          if fd \<in> dom (epoll s) then (Some EEXIST, s)
          else (None, s\<lparr>epoll := (epoll s)(fd \<mapsto> ev)\<rparr>)
      | EPOLL_CTL_MOD \<Rightarrow>
          if fd \<notin> dom (epoll s) then (Some ENOENT, s)
          else (None, s\<lparr>epoll := (epoll s)(fd \<mapsto> ev)\<rparr>)
      | EPOLL_CTL_DEL \<Rightarrow>
          if fd \<notin> dom (epoll s) then (Some ENOENT, s)
          else (None, s\<lparr>epoll := (epoll s)(fd := None)\<rparr>))"

text \<open>
  The first loop of \<open>uv__io_poll\<close>: every watcher of \<open>watcher_queue\<close> is taken off the
  queue and registered with the kernel. The argument is the queue that is left.
\<close>

fun uv__io_poll_flush :: "wptr list \<Rightarrow> world \<Rightarrow> error + world" where
  "uv__io_poll_flush [] s = Inr s"
| "uv__io_poll_flush (w # q) s0 =
     (let s = s0\<lparr>loop := (loop s0)\<lparr>watcher_queue := q\<rparr>\<rparr>;
          wr = io s w
      in if \<not> (io_pevents wr \<noteq> 0) then Inl Assertion_failed
         else if \<not> (0 \<le> sint (io_fd wr)) then Inl Assertion_failed
         else if \<not> (sint (io_fd wr) < sint (nwatchers (loop s))) then Inl Assertion_failed
         else
           let op = (if io_events wr = 0 then EPOLL_CTL_ADD else EPOLL_CTL_MOD);
               (err, s) = epoll_ctl s op (io_fd wr) (io_pevents wr)
           in if err \<noteq> None then
                if err \<noteq> Some EEXIST then Inl Aborted
                else if \<not> (op = EPOLL_CTL_ADD) then Inl Assertion_failed
                else
                  let (err, s) = epoll_ctl s EPOLL_CTL_MOD (io_fd wr) (io_pevents wr)
                  in if err \<noteq> None then Inl Aborted
                     else uv__io_poll_flush q
                            (s\<lparr>io := (io s)(w := wr\<lparr>io_events := io_pevents wr\<rparr>)\<rparr>)
              else uv__io_poll_flush q
                     (s\<lparr>io := (io s)(w := wr\<lparr>io_events := io_pevents wr\<rparr>)\<rparr>))"

text \<open>
  The body of the dispatch loop \<open>for (i = 0; i < nfds; i++)\<close>, on the memory, the flag
  \<open>have_signals\<close>, the counter \<open>nevents\<close> and the callbacks made so far.
\<close>

type_synonym dispatch_state = "world \<times> bool \<times> nat \<times> event list"

definition uv__io_poll_event :: "env \<Rightarrow> nat \<Rightarrow> dispatch_state \<Rightarrow> error + dispatch_state" where
  "uv__io_poll_event E i st =
     (case st of (s, have_signals, nevents, tr) \<Rightarrow>
        let pe = events_buf s i;
            fd = ev_fd pe
        in if fd = - 1 then Inr (s, have_signals, nevents, tr)
           else if \<not> (0 \<le> sint fd) then Inl Assertion_failed
           else if \<not> (fd < nwatchers (loop s)) then Inl Assertion_failed
           else
             case watchers_at (loop s) (unat fd) of
               NULL \<Rightarrow> Inr (snd (epoll_ctl s EPOLL_CTL_DEL fd (ev_events pe)), have_signals, nevents, tr)
             | Watcher w \<Rightarrow>
                 let ev = ev_events pe AND (io_pevents (io s w) OR POLLERR OR POLLHUP);
                     ev = (if ev = POLLERR \<or> ev = POLLHUP
                           then ev OR (io_pevents (io s w) AND
                                       (POLLIN OR POLLOUT OR UV__POLLRDHUP OR UV__POLLPRI))
                           else ev);
                     s = s\<lparr>events_buf := (events_buf s)(i := pe\<lparr>ev_events := ev\<rparr>)\<rparr>
                 in if ev \<noteq> 0 then
                      if w = Signal_io_watcher then Inr (s, True, nevents + 1, tr)
                      else
                        case io_cb E w ev s of
                          Inl e \<Rightarrow> Inl e
                        | Inr s \<Rightarrow> Inr (s, have_signals, nevents + 1, tr @ [Io_cb w ev])
                    else Inr (s, have_signals, nevents, tr)
             | _ \<Rightarrow> Inl Undefined_behaviour)"

fun uv__io_poll_events :: "env \<Rightarrow> nat list \<Rightarrow> dispatch_state \<Rightarrow> error + dispatch_state" where
  "uv__io_poll_events E [] st = Inr st"
| "uv__io_poll_events E (i # is) st =
     (case uv__io_poll_event E i st of
        Inl e \<Rightarrow> Inl e
      | Inr st \<Rightarrow> uv__io_poll_events E is st)"

text \<open>\<open>(void*) (uintptr_t) n\<close>: zero is the null pointer.\<close>

definition voidp_of_uintptr :: "nat \<Rightarrow> voidp" where
  "voidp_of_uintptr n = (if n = 0 then NULL else Uintptr n)"

text \<open>
  One batch of \<open>n > 0\<close> ready events (\<open>n\<close> is the local \<open>nfds\<close>): the event array is published in the two
  trailing slots, the events are dispatched, the signal watcher is called if it was
  among them, and the trailing slots are cleared.
\<close>

definition uv__io_poll_batch ::
    "env \<Rightarrow> nat \<Rightarrow> world \<Rightarrow> event list \<Rightarrow> error + dispatch_state" where
  "uv__io_poll_batch E n s tr =
     (if \<not> (watchers (loop s) \<noteq> None) then Inl Assertion_failed
      else
        let l = loop s;
            l = watchers_set l (unat (nwatchers l)) Events_array;
            l = watchers_set l (unat (nwatchers l) + 1) (voidp_of_uintptr n);
            s = s\<lparr>loop := l\<rparr>
        in case uv__io_poll_events E [0..<n] (s, False, 0, tr) of
             Inl e \<Rightarrow> Inl e
           | Inr (s, have_signals, nevents, tr) \<Rightarrow>
               case (if have_signals
                     then (case io_cb E Signal_io_watcher POLLIN s of
                             Inl e \<Rightarrow> Inl e
                           | Inr s \<Rightarrow> Inr (s, tr @ [Io_cb Signal_io_watcher POLLIN]))
                     else Inr (s, tr)) of
                 Inl e \<Rightarrow> Inl e
               | Inr (s, tr) \<Rightarrow>
                   let l = loop s;
                       l = watchers_set l (unat (nwatchers l)) NULL;
                       l = watchers_set l (unat (nwatchers l) + 1) NULL
                   in Inr (s\<lparr>loop := l\<rparr>, have_signals, nevents, tr))"

text \<open>
  What the kernel answers to one \<open>epoll_pwait\<close>: the ready events (none when the timeout
  ran out) or an error; with it comes the time the call took, in nanoseconds.
\<close>

datatype wait = Wait_events "epoll_event list" | Wait_error errno

type_synonym script = "(u64 \<times> wait) list"

definition max_safe_timeout :: int where "max_safe_timeout = 1789569"

text \<open>How one round of the \<open>for (;;)\<close> loop ends: \<open>return\<close>, or \<open>continue\<close> with new
  values of \<open>timeout\<close>, \<open>real_timeout\<close> and \<open>count\<close>.\<close>

datatype next_round = Return | Continue int int int

text \<open>The label \<open>update_timeout\<close>. \<open>real_timeout -= (loop->time - base)\<close> is computed in
  \<open>uint64_t\<close> and converted back to \<open>int\<close>.\<close>

definition update_timeout :: "int \<Rightarrow> int \<Rightarrow> int \<Rightarrow> u64 \<Rightarrow> world \<Rightarrow> error + next_round" where
  "update_timeout timeout real_timeout count base s =
     (if \<not> (timeout > 0) then Inl Assertion_failed
      else
        let real_timeout =
              sint (ucast ((word_of_int real_timeout :: u64) - (time (loop s) - base)) :: u32)
        in if real_timeout \<le> 0 then Inr Return
           else Inr (Continue real_timeout real_timeout count))"

text \<open>
  \<open>epoll_pwait\<close> for one answer of the kernel: the clock moves on, the ready events
  (at most \<open>ARRAY_SIZE(events) = 1024\<close>) are written to the event array and their number
  is returned, or \<open>-1\<close> with \<open>errno\<close> set.
\<close>

definition epoll_pwait :: "u64 \<times> wait \<Rightarrow> world \<Rightarrow> int \<times> errno option \<times> world" where
  "epoll_pwait k s0 =
     (let s = s0\<lparr>clock := clock s0 + fst k\<rparr>
      in case snd k of
           Wait_error e \<Rightarrow> (- 1, Some e, s)
         | Wait_events evs0 \<Rightarrow>
             let evs = take 1024 evs0
             in (int (length evs), None,
                 s\<lparr>events_buf := (\<lambda>i. if i < length evs then evs ! i else events_buf s i)\<rparr>))"

text \<open>One round of the loop \<open>for (;;)\<close> of \<open>uv__io_poll\<close>.\<close>

definition uv__io_poll_round ::
    "env \<Rightarrow> u64 \<times> wait \<Rightarrow> int \<Rightarrow> int \<Rightarrow> int \<Rightarrow> u64 \<Rightarrow> world \<Rightarrow> event list
      \<Rightarrow> error + (world \<times> event list \<times> next_round)" where
  "uv__io_poll_round E k timeout0 real_timeout count base s0 tr =
     (let timeout = (if long_is_32_bits E \<and> timeout0 \<ge> max_safe_timeout
                     then max_safe_timeout else timeout0);
          (n, errno, s) = epoll_pwait k s0;
          s = uv__update_time s
      in if n = 0 then
           if \<not> (timeout \<noteq> - 1) then Inl Assertion_failed
           else if timeout = 0 then Inr (s, tr, Return)
           else map_sum id (\<lambda>r. (s, tr, r)) (update_timeout timeout real_timeout count base s)
         else if n = - 1 then
           if errno \<noteq> Some EINTR then Inl Aborted
           else if timeout = - 1 then Inr (s, tr, Continue timeout real_timeout count)
           else if timeout = 0 then Inr (s, tr, Return)
           else map_sum id (\<lambda>r. (s, tr, r)) (update_timeout timeout real_timeout count base s)
         else
           case uv__io_poll_batch E (nat n) s tr of
             Inl e \<Rightarrow> Inl e
           | Inr (s, have_signals, nevents, tr) \<Rightarrow>
               if have_signals then Inr (s, tr, Return)
               else if nevents \<noteq> 0 then
                 if n = 1024 \<and> count - 1 \<noteq> 0
                 then Inr (s, tr, Continue 0 real_timeout (count - 1))
                 else Inr (s, tr, Return)
               else if timeout = 0 then Inr (s, tr, Return)
               else if timeout = - 1 then Inr (s, tr, Continue timeout real_timeout count)
               else map_sum id (\<lambda>r. (s, tr, r))
                      (update_timeout timeout real_timeout count base s))"

text \<open>The loop \<open>for (;;)\<close>, fed with the kernel's answers; it gives back the answers it
  did not use.\<close>

fun uv__io_poll_loop ::
    "env \<Rightarrow> script \<Rightarrow> int \<Rightarrow> int \<Rightarrow> int \<Rightarrow> u64 \<Rightarrow> world \<Rightarrow> event list
      \<Rightarrow> error + (world \<times> event list \<times> script)" where
  "uv__io_poll_loop E [] timeout real_timeout count base s tr = Inl Blocked"
| "uv__io_poll_loop E (k # sc) timeout real_timeout count base s tr =
     (case uv__io_poll_round E k timeout real_timeout count base s tr of
        Inl e \<Rightarrow> Inl e
      | Inr (s, tr, Return) \<Rightarrow> Inr (s, tr, sc)
      | Inr (s, tr, Continue timeout real_timeout count) \<Rightarrow>
          uv__io_poll_loop E sc timeout real_timeout count base s tr)"

definition uv__io_poll :: "env \<Rightarrow> world \<Rightarrow> int \<Rightarrow> script \<Rightarrow> error + (world \<times> event list \<times> script)" where
  "uv__io_poll E s timeout sc =
     (if nfds (loop s) = 0 then
        if \<not> (watcher_queue (loop s) = []) then Inl Assertion_failed
        else Inr (s, [], sc)
      else
        case uv__io_poll_flush (watcher_queue (loop s)) s of
          Inl e \<Rightarrow> Inl e
        | Inr s \<Rightarrow>
            if \<not> (timeout \<ge> - 1) then Inl Assertion_failed
            else uv__io_poll_loop E sc timeout timeout 48 (time (loop s)) s [])"

text \<open>A callback of an io-watcher.\<close>

fun is_io_cb :: "event \<Rightarrow> bool" where
  "is_io_cb (Io_cb w m) = True"
| "is_io_cb _ = False"

text \<open>A callback of an io-watcher other than the loop's signal watcher.\<close>

fun ordinary_cb :: "event \<Rightarrow> bool" where
  "ordinary_cb (Io_cb w m) = (w \<noteq> Signal_io_watcher)"
| "ordinary_cb _ = False"

text \<open>
  The event at index \<open>i\<close> of the event array is a live event for the loop's signal
  watcher: its descriptor is not invalidated, its slot holds the signal watcher and the
  events left after masking are not empty.
\<close>

definition signal_event :: "world \<Rightarrow> nat \<Rightarrow> bool" where
  "signal_event s i \<longleftrightarrow>
     (let pe = events_buf s i; fd = ev_fd pe; p = io_pevents (io s Signal_io_watcher);
          m = ev_events pe AND (p OR POLLERR OR POLLHUP)
      in fd \<noteq> - 1 \<and> 0 \<le> sint fd \<and> fd < nwatchers (loop s)
         \<and> watchers_at (loop s) (unat fd) = Watcher Signal_io_watcher
         \<and> (if m = POLLERR \<or> m = POLLHUP then m OR (p AND io_mask) else m) \<noteq> 0)"

section \<open>Closing handles (core.c)\<close>

text \<open>
  Modelled from the spec: the flag bits \<open>CLOSING\<close>, \<open>CLOSED\<close>, \<open>ACTIVE\<close> and \<open>REF\<close> of a
  handle and the macros \<open>uv__is_closing\<close> and \<open>uv__handle_unref\<close> are defined in
  uv-common.h, which is not part of the sources. A handle is closing when one of the two
  closing bits is set; dropping the reference of a handle clears \<open>REF\<close> and takes an
  active handle that is not closing off the count of active handles.
\<close>

definition UV_HANDLE_CLOSING :: u32 where "UV_HANDLE_CLOSING = 0x01"
definition UV_HANDLE_CLOSED :: u32 where "UV_HANDLE_CLOSED = 0x02"
definition UV_HANDLE_ACTIVE :: u32 where "UV_HANDLE_ACTIVE = 0x04"
definition UV_HANDLE_REF :: u32 where "UV_HANDLE_REF = 0x08"

definition uv__is_closing :: "uv_handle_t \<Rightarrow> bool" where
  "uv__is_closing h \<longleftrightarrow> h_flags h AND (UV_HANDLE_CLOSING OR UV_HANDLE_CLOSED) \<noteq> 0"

text \<open>
  \<open>uv__make_close_pending\<close> links the handle in front of \<open>loop->closing_handles\<close>; the
  chain through \<open>next_closing\<close> is the list.
\<close>

definition uv__make_close_pending :: "world \<Rightarrow> hptr \<Rightarrow> error + world" where
  "uv__make_close_pending s h =
     (if \<not> (h_flags (handles s h) AND UV_HANDLE_CLOSING \<noteq> 0) then Inl Assertion_failed
      else if \<not> (\<not> (h_flags (handles s h) AND UV_HANDLE_CLOSED \<noteq> 0)) then Inl Assertion_failed
      else Inr (s\<lparr>loop := (loop s)\<lparr>closing_handles := h # closing_handles (loop s)\<rparr>\<rparr>))"

text \<open>
  \<open>uv_close\<close>; \<open>cb\<close> tells whether the close callback passed is not null, \<open>hook\<close> is
  the close function of the handle's type. Signal handles are not linked here.
\<close>

definition uv_close ::
    "(uv_handle_type \<Rightarrow> hptr \<Rightarrow> world \<Rightarrow> error + world) \<Rightarrow> world \<Rightarrow> hptr \<Rightarrow> bool \<Rightarrow> error + world" where
  "uv_close hook s0 h cb =
     (if \<not> (\<not> uv__is_closing (handles s0 h)) then Inl Assertion_failed
      else
        let hr = handles s0 h;
            hr = hr\<lparr>h_flags := h_flags hr OR UV_HANDLE_CLOSING, h_close_cb := cb\<rparr>;
            s = s0\<lparr>handles := (handles s0)(h := hr)\<rparr>
        in if h_type hr = UV_UNKNOWN_HANDLE then Inl Assertion_failed
           else
             case hook (h_type hr) h s of
               Inl e \<Rightarrow> Inl e
             | Inr s \<Rightarrow>
                 if h_type hr = UV_SIGNAL then Inr s
                 else uv__make_close_pending s h)"

definition uv__handle_unref :: "world \<Rightarrow> hptr \<Rightarrow> world" where
  "uv__handle_unref s h =
     (let hr = handles s h
      in if h_flags hr AND UV_HANDLE_REF = 0 then s
         else
           let hr = hr\<lparr>h_flags := h_flags hr AND NOT UV_HANDLE_REF\<rparr>;
               s = s\<lparr>handles := (handles s)(h := hr)\<rparr>
           in if h_flags hr AND UV_HANDLE_CLOSING \<noteq> 0 then s
              else if h_flags hr AND UV_HANDLE_ACTIVE \<noteq> 0
              then s\<lparr>loop := (loop s)\<lparr>active_handles := active_handles (loop s) - 1\<rparr>\<rparr>
              else s)"

text \<open>\<open>uv__finish_close\<close>, with the list of callbacks it has made.\<close>

definition uv__finish_close :: "env \<Rightarrow> world \<Rightarrow> hptr \<Rightarrow> error + (world \<times> event list)" where
  "uv__finish_close E s0 h =
     (if \<not> (h_flags (handles s0 h) AND UV_HANDLE_CLOSING \<noteq> 0) then Inl Assertion_failed
      else if \<not> (\<not> (h_flags (handles s0 h) AND UV_HANDLE_CLOSED \<noteq> 0)) then Inl Assertion_failed
      else
        let hr = (handles s0 h)\<lparr>h_flags := h_flags (handles s0 h) OR UV_HANDLE_CLOSED\<rparr>;
            s = s0\<lparr>handles := (handles s0)(h := hr)\<rparr>
        in case (if h_type hr \<in> {UV_NAMED_PIPE, UV_TCP, UV_TTY, UV_UDP}
                 then finish_hook E (h_type hr) h s
                 else if h_type hr = UV_UNKNOWN_HANDLE then Inl Assertion_failed
                 else Inr s) of
             Inl e \<Rightarrow> Inl e
           | Inr s \<Rightarrow>
               let s = uv__handle_unref s h;
                   s = s\<lparr>loop := (loop s)\<lparr>handle_queue := removeAll h (handle_queue (loop s))\<rparr>\<rparr>
               in if h_close_cb (handles s h) then
                    case close_cb E h s of
                      Inl e \<Rightarrow> Inl e
                    | Inr s \<Rightarrow> Inr (s, [Close_cb h])
                  else Inr (s, []))"

text \<open>
  A handle passes the two assertions and the switch on the type of \<open>uv__finish_close\<close>:
  it is closing, not closed yet, and of a known type.
\<close>

definition close_pending :: "uv_handle_t \<Rightarrow> bool" where
  "close_pending hr \<longleftrightarrow>
     h_flags hr AND UV_HANDLE_CLOSING \<noteq> 0 \<and> \<not> (h_flags hr AND UV_HANDLE_CLOSED \<noteq> 0)
     \<and> h_type hr \<noteq> UV_UNKNOWN_HANDLE"

text \<open>
  \<open>uv__run_closing_handles\<close>: the list is detached from the loop, then every handle of
  it is finished.
\<close>

fun finish_all :: "env \<Rightarrow> hptr list \<Rightarrow> world \<Rightarrow> event list \<Rightarrow> error + (world \<times> event list)" where
  "finish_all E [] s tr = Inr (s, tr)"
| "finish_all E (p # q) s tr =
     (case uv__finish_close E s p of
        Inl e \<Rightarrow> Inl e
      | Inr (s, tr1) \<Rightarrow> finish_all E q s (tr @ tr1))"

definition uv__run_closing_handles :: "env \<Rightarrow> world \<Rightarrow> error + (world \<times> event list)" where
  "uv__run_closing_handles E s =
     (let p = closing_handles (loop s);
          s = s\<lparr>loop := (loop s)\<lparr>closing_handles := []\<rparr>\<rparr>
      in finish_all E p s [])"

section \<open>Running the loop (core.c)\<close>

text \<open>
  \<open>uv__io_feed\<close>: a watcher that is in no pending queue is appended to
  \<open>loop->pending_queue\<close>. Its link is also tied while it waits in the local queue of a
  running \<open>uv__run_pending\<close>.
\<close>

definition uv__io_feed :: "world \<Rightarrow> wptr \<Rightarrow> world" where
  "uv__io_feed s w =
     (if w \<notin> set (pending_queue (loop s)) \<and> w \<notin> set (pq s)
      then s\<lparr>loop := (loop s)\<lparr>pending_queue := pending_queue (loop s) @ [w]\<rparr>\<rparr>
      else s)"

text \<open>
  The loop of \<open>uv__run_pending\<close> over the local queue \<open>pq\<close>. A callback can take
  watchers out of the local queue (\<open>uv__io_close\<close> unlinks them) and cannot add any, so
  the loop visits the watchers that were moved to \<open>pq\<close>, in order, and skips those no
  longer linked when their turn comes.
\<close>

fun run_pending_queue :: "env \<Rightarrow> wptr list \<Rightarrow> world \<Rightarrow> event list \<Rightarrow> error + (world \<times> event list)" where
  "run_pending_queue E [] s tr = Inr (s, tr)"
| "run_pending_queue E (w # q) s tr =
     (if w \<notin> set (pq s) then run_pending_queue E q s tr
      else
        case io_cb E w POLLOUT (s\<lparr>pq := removeAll w (pq s)\<rparr>) of
          Inl e \<Rightarrow> Inl e
        | Inr s \<Rightarrow> run_pending_queue E q s (tr @ [Io_cb w POLLOUT]))"

definition uv__run_pending :: "env \<Rightarrow> world \<Rightarrow> event list \<Rightarrow> error + (bool \<times> world \<times> event list)" where
  "uv__run_pending E s tr =
     (if pending_queue (loop s) = [] then Inr (False, s, tr)
      else
        let s = s\<lparr>pq := pending_queue (loop s), loop := (loop s)\<lparr>pending_queue := []\<rparr>\<rparr>
        in case run_pending_queue E (pq s) s tr of
             Inl e \<Rightarrow> Inl e
           | Inr (s, tr) \<Rightarrow> Inr (True, s, tr))"

datatype uv_run_mode = UV_RUN_DEFAULT | UV_RUN_ONCE | UV_RUN_NOWAIT

text \<open>The body of the loop \<open>while (r != 0 && loop->stop_flag == 0)\<close> of \<open>uv_run\<close>, up to
  the second test of \<open>uv__loop_alive\<close>.\<close>

definition uv_run_iteration ::
    "env \<Rightarrow> uv_run_mode \<Rightarrow> script \<Rightarrow> world \<Rightarrow> event list
      \<Rightarrow> error + (world \<times> event list \<times> script)" where
  "uv_run_iteration E mode sc s0 tr0 =
     (case run_timers E (uv__update_time s0) of Inl e \<Rightarrow> Inl e | Inr s \<Rightarrow>
      case uv__run_pending E s tr0 of Inl e \<Rightarrow> Inl e | Inr (ran_pending, s, tr) \<Rightarrow>
      case run_idle E s of Inl e \<Rightarrow> Inl e | Inr s \<Rightarrow>
      case run_prepare E s of Inl e \<Rightarrow> Inl e | Inr s \<Rightarrow>
      let timeout = (if (mode = UV_RUN_ONCE \<and> \<not> ran_pending) \<or> mode = UV_RUN_DEFAULT
                     then uv_backend_timeout (loop s) else 0)
      in
      case uv__io_poll E s timeout sc of Inl e \<Rightarrow> Inl e | Inr (s, tr1, sc) \<Rightarrow>
      case run_check E s of Inl e \<Rightarrow> Inl e | Inr s \<Rightarrow>
      case uv__run_closing_handles E s of Inl e \<Rightarrow> Inl e | Inr (s, tr2) \<Rightarrow>
      if mode = UV_RUN_ONCE then
        case run_timers E (uv__update_time s) of
          Inl e \<Rightarrow> Inl e
        | Inr s \<Rightarrow> Inr (s, tr @ tr1 @ tr2, sc)
      else Inr (s, tr @ tr1 @ tr2, sc))"


text \<open>
  The loop of \<open>uv_run\<close>, for at most \<open>fuel\<close> iterations: \<open>None\<close> stands for a run that
  needs more. The result carries the value of \<open>r\<close>.
\<close>

fun uv_run_loop ::
    "env \<Rightarrow> uv_run_mode \<Rightarrow> nat \<Rightarrow> bool \<Rightarrow> script \<Rightarrow> world \<Rightarrow> event list
      \<Rightarrow> (error + (bool \<times> world \<times> event list \<times> script)) option" where
  "uv_run_loop E mode 0 r sc s tr =
     (if r \<and> stop_flag (loop s) = 0 then None else Some (Inr (r, s, tr, sc)))"
| "uv_run_loop E mode (Suc fuel) r sc s tr =
     (if r \<and> stop_flag (loop s) = 0 then
        case uv_run_iteration E mode sc s (tr @ [Iteration]) of
          Inl e \<Rightarrow> Some (Inl e)
        | Inr (s, tr, sc) \<Rightarrow>
            let r = uv__loop_alive (loop s)
            in if mode = UV_RUN_ONCE \<or> mode = UV_RUN_NOWAIT then Some (Inr (r, s, tr, sc))
               else uv_run_loop E mode fuel r sc s tr
      else Some (Inr (r, s, tr, sc)))"

definition uv_run ::
    "env \<Rightarrow> nat \<Rightarrow> world \<Rightarrow> uv_run_mode \<Rightarrow> script
      \<Rightarrow> (error + (bool \<times> world \<times> event list \<times> script)) option" where
  "uv_run E fuel s0 mode sc =
     (let r = uv__loop_alive (loop s0);
          s = (if \<not> r then uv__update_time s0 else s0)
      in case uv_run_loop E mode fuel r sc s [] of
           None \<Rightarrow> None
         | Some (Inl e) \<Rightarrow> Some (Inl e)
         | Some (Inr (r, s, tr, sc)) \<Rightarrow>
             Some (Inr (r, (if stop_flag (loop s) \<noteq> 0
                            then s\<lparr>loop := (loop s)\<lparr>stop_flag := 0\<rparr>\<rparr> else s), tr, sc)))"

section \<open>Sequences of start and stop calls on one watcher\<close>


datatype io_call = Start u32 | Stop u32

fun io_calls :: "(nat \<Rightarrow> bool) \<Rightarrow> world \<Rightarrow> wptr \<Rightarrow> io_call list \<Rightarrow> error + world" where
  "io_calls alloc s w [] = Inr s"
| "io_calls alloc s w (Start m # cs) =
     (case uv__io_start alloc s w m of Inl e \<Rightarrow> Inl e | Inr s' \<Rightarrow> io_calls alloc s' w cs)"
| "io_calls alloc s w (Stop m # cs) =
     (case uv__io_stop s w m of Inl e \<Rightarrow> Inl e | Inr s' \<Rightarrow> io_calls alloc s' w cs)"

definition slot_of :: "world \<Rightarrow> wptr \<Rightarrow> voidp" where
  "slot_of s w = watchers_at (loop s) (unat (io_fd (io s w)))"

definition io_inv :: "world \<Rightarrow> wptr \<Rightarrow> bool" where
  "io_inv s w \<longleftrightarrow>
     0 \<le> sint (io_fd (io s w))
   \<and> (io_pevents (io s w) = 0 \<longrightarrow> io_events (io s w) = 0)
   \<and> (io_pevents (io s w) \<noteq> io_events (io s w) \<longrightarrow> w \<in> set (watcher_queue (loop s)))
   \<and> (w \<in> set (watcher_queue (loop s)) \<longrightarrow> io_pevents (io s w) \<noteq> 0)
   \<and> (io_pevents (io s w) \<noteq> 0 \<longrightarrow>
        io_fd (io s w) < nwatchers (loop s) \<and> slot_of s w \<noteq> NULL)
   \<and> (io_pevents (io s w) = 0 \<and> io_fd (io s w) < nwatchers (loop s) \<longrightarrow> slot_of s w = NULL)"



definition io_idle :: "world \<Rightarrow> wptr \<Rightarrow> bool" where
  "io_idle s w \<longleftrightarrow>
     io_pevents (io s w) = 0 \<and> io_events (io s w) = 0
   \<and> w \<notin> set (watcher_queue (loop s)) \<and> w \<notin> set (pending_queue (loop s)) \<and> w \<notin> set (pq s)
   \<and> (\<forall>i<unat (nwatchers (loop s)). watchers_at (loop s) i \<noteq> Watcher w)"


section \<open>Concrete states\<close>

text \<open>An allocator that never fails.\<close>

definition alloc_always :: "nat \<Rightarrow> bool" where
  "alloc_always n = True"

text \<open>A loop with nothing registered, and the memory around it, with every watcher unbound.\<close>

definition loop_init :: uv_loop_t where
  "loop_init = \<lparr>time = 0, stop_flag = 0, active_handles = 0, active_reqs = 0, nfds = 0,
     nwatchers = 0, watchers = None, watcher_queue = [], pending_queue = [], idle_handles = [],
     closing_handles = [], handle_queue = [], timer_heap = []\<rparr>"

definition world_init :: world where
  "world_init = \<lparr>loop = loop_init,
     io = (\<lambda>_. \<lparr>io_fd = - 1, io_events = 0, io_pevents = 0\<rparr>),
     handles = (\<lambda>_. \<lparr>h_type = UV_UNKNOWN_HANDLE, h_flags = 0, h_close_cb = False\<rparr>),
     events_buf = (\<lambda>_. \<lparr>ev_events = 0, ev_fd = 0\<rparr>),
     pq = [], epoll = Map.empty, clock = 0\<rparr>"

text \<open>The same memory with one initialised watcher on descriptor \<open>fd\<close>.\<close>

definition world_fd :: "wptr \<Rightarrow> u32 \<Rightarrow> world" where
  "world_fd w fd = world_init\<lparr>io := (io world_init)(w := \<lparr>io_fd = fd, io_events = 0, io_pevents = 0\<rparr>)\<rparr>"

text \<open>An environment whose callbacks and phases do nothing, with an allocator that never fails.\<close>

definition env_quiet :: env where
  "env_quiet = \<lparr>io_cb = (\<lambda>w m s. Inr s), close_cb = (\<lambda>h s. Inr s),
     close_hook = (\<lambda>t h s. Inr s), finish_hook = (\<lambda>t h s. Inr s),
     run_timers = Inr, run_idle = Inr, run_prepare = Inr, run_check = Inr,
     realloc_ok = alloc_always, long_is_32_bits = False\<rparr>"

text \<open>Watcher 0 on descriptor 5, started for \<open>POLLIN\<close>; then registered by a poll that
  found nothing ready.\<close>

definition world_started :: world where
  "world_started = projr (uv__io_start alloc_always (world_fd (Io_watcher 0) 5) (Io_watcher 0) POLLIN)"

definition world_armed :: world where
  "world_armed = fst (projr (uv__io_poll env_quiet world_started 0 [(0, Wait_events [])]))"

text \<open>Watcher 0 on descriptor 5 and the signal watcher on descriptor 3, both started for
  \<open>POLLIN\<close>.\<close>

definition world_signal :: world where
  "world_signal =
     projr (uv__io_start alloc_always
       (projr (uv__io_start alloc_always
          ((world_fd (Io_watcher 0) 5)\<lparr>io := (io (world_fd (Io_watcher 0) 5))
              (Signal_io_watcher := \<lparr>io_fd = 3, io_events = 0, io_pevents = 0\<rparr>)\<rparr>)
          (Io_watcher 0) POLLIN))
       Signal_io_watcher POLLIN)"

text \<open>A loop with two timers, due at 50 and at 10, and one active handle, at time 3.\<close>

definition loop_timers :: uv_loop_t where
  "loop_timers = loop_init\<lparr>time := 3, active_handles := 2, timer_heap := [50, 10]\<rparr>"

text \<open>The registered watcher 0 of \<open>world_armed\<close> with one hangup event for its descriptor in
  the event array.\<close>

definition world_hup :: world where
  "world_hup = world_armed\<lparr>events_buf := (\<lambda>_. \<lparr>ev_events = POLLHUP, ev_fd = 5\<rparr>)\<rparr>"

text \<open>
  A prepare handle 7 that is initialised and not started, an active handle whose
  watcher 0 waits in the pending queue, and a callback of that watcher which closes
  handle 7 with a close callback.
\<close>

definition world_pending :: world where
  "world_pending =
     uv__io_feed
       (world_init\<lparr>loop := loop_init\<lparr>active_handles := 1, handle_queue := [7]\<rparr>,
                    handles := (handles world_init)
                      (7 := \<lparr>h_type = UV_PREPARE, h_flags = UV_HANDLE_REF, h_close_cb = False\<rparr>)\<rparr>)
       (Io_watcher 0)"

definition closer :: "wptr \<Rightarrow> u32 \<Rightarrow> world \<Rightarrow> error + world" where
  "closer w m s = uv_close (close_hook env_quiet) s 7 True"

definition env_closer :: env where
  "env_closer = env_quiet\<lparr>io_cb := closer\<rparr>"





text \<open>The registered watcher 0 after \<open>uv__io_start\<close> and \<open>uv__io_stop\<close> for \<open>POLLOUT\<close>.\<close>

definition world_flapped :: "error + world" where
  "world_flapped = io_calls alloc_always world_armed (Io_watcher 0) [Start POLLOUT, Stop POLLOUT]"

text \<open>An answer of the backend: the signal watcher's descriptor 3 and then descriptor 5,
  both readable.\<close>

definition signal_first :: "u64 \<times> wait" where
  "signal_first =
     (0, Wait_events [\<lparr>ev_events = POLLIN, ev_fd = 3\<rparr>, \<lparr>ev_events = POLLIN, ev_fd = 5\<rparr>])"

section \<open>Properties of the watcher table\<close>

declare alloc_always_def [simp]


lemma npot_bits:
  fixes v :: u32
  shows "bit (let val = v;
          val = val OR drop_bit 1 val;
          val = val OR drop_bit 2 val;
          val = val OR drop_bit 4 val;
          val = val OR drop_bit 8 val;
          val = val OR drop_bit 16 val in val) n \<longleftrightarrow> (\<exists>j<32. bit v (n + j))"
  (is "?L = ?R")
proof
  assume ?L
  then have "bit v n \<or> (\<exists>j \<in> set [1..<32]. bit v (n + j))"
    unfolding Let_def bit_or_iff bit_drop_bit_eq 
    by (simp add: upt_rec numeral_eq_Suc  ac_simps)
  then show ?R
    by (metis add.right_neutral atLeastLessThan_iff set_upt zero_less_numeral)
next
  assume ?R
  then obtain j where j: "j < 32" "bit v (n + j)" by blast
  then have "j \<in> set [0..<32]" by simp
  then show ?L using j(2)
    unfolding Let_def bit_or_iff bit_drop_bit_eq 
    by (auto simp add: upt_rec numeral_eq_Suc ac_simps)
qed

lemma bit_le: fixes v :: u32 shows "bit v m \<Longrightarrow> 2 ^ m \<le> unat v"
proof -
  assume "bit v m"
  then have "bit (unat v) m" by (simp add: bit_unsigned_iff)
  then have "odd (unat v div 2 ^ m)" by (simp add: bit_iff_odd)
  then have "unat v div 2 ^ m \<noteq> 0" by (rule contrapos_nn) simp
  then show ?thesis by (metis div_less not_le)
qed

lemma nobits_less: fixes v :: u32 shows "(\<And>n. m \<le> n \<Longrightarrow> \<not> bit v n) \<Longrightarrow> unat v < 2 ^ m"
proof -
  assume "\<And>n. m \<le> n \<Longrightarrow> \<not> bit v n"
  then have a: "\<forall>n. bit v n \<longrightarrow> n < m" by (meson not_le)
  have "take_bit m v = v"
    by (rule bit_eqI) (use a in \<open>auto simp add: bit_take_bit_iff\<close>)
  then have "unat v = take_bit m (unat v)"
    by (metis unsigned_take_bit_eq)
  then show ?thesis by (metis take_bit_nat_less_exp)
qed


lemma npot_pos:
  fixes x :: u32
  assumes "0 < unat x" "unat x \<le> 2 ^ 31"
  shows "\<exists>k\<le>31. next_power_of_two x = 2 ^ k \<and> unat x \<le> 2 ^ k \<and> (\<forall>j. unat x \<le> 2 ^ j \<longrightarrow> k \<le> j)"
proof -
  define v where "v = x - 1"
  have x0: "x \<noteq> 0" using assms(1) by auto
  have uv: "unat v = unat x - 1" unfolding v_def using x0 by (simp add: unat_minus_one)
  define sm where "sm = (let val = v;
          val = val OR drop_bit 1 val;
          val = val OR drop_bit 2 val;
          val = val OR drop_bit 4 val;
          val = val OR drop_bit 8 val;
          val = val OR drop_bit 16 val in val)"
  have np: "next_power_of_two x = sm + 1"
    unfolding next_power_of_two_def sm_def v_def Let_def by simp
  have smb: "bit sm n \<longleftrightarrow> (\<exists>j<32. bit v (n + j))" for n
    unfolding sm_def by (rule npot_bits)
  show ?thesis
  proof (cases "v = 0")
    case True
    then have "sm = 0" by (simp add: sm_def)
    moreover have "unat x = 1" using uv True assms(1) by simp
    ultimately show ?thesis using np by (intro exI[of _ 0]) simp
  next
    case False
    then have ne: "{n. bit v n} \<noteq> {}" by (auto simp add: bit_eq_iff)
    have fin: "finite {n. bit v n}" by simp
    define m where "m = Max {n. bit v n}"
    have bm: "bit v m" unfolding m_def using Max_in[OF fin ne] by simp
    have above: "\<not> bit v n" if "m < n" for n
    proof
      assume "bit v n"
      then have "n \<le> m" unfolding m_def using fin by (intro Max_ge) simp_all
      then show False using that by simp
    qed
    have m32: "m < 32" using bit_imp_le_length[OF bm] by simp
    have lo: "2 ^ m \<le> unat v" using bm by (rule bit_le)
    have hi: "unat v < 2 ^ Suc m" by (rule nobits_less) (use above in auto)
    have m31: "m < 31"
    proof (rule ccontr)
      assume "\<not> m < 31"
      then have "m = 31" using m32 by simp
      then show False using lo uv assms(2) by simp
    qed
    have "sm = mask (Suc m)"
    proof (rule bit_eqI)
      fix n
      show "bit sm n = bit (mask (Suc m) :: u32) n"
      proof (cases "n \<le> m")
        case True
        then have "m - n < 32" "bit v (n + (m - n))" using m32 bm by simp_all
        then have "bit sm n" unfolding smb by blast
        then show ?thesis using True m32 by (simp add: bit_mask_iff)
      next
        case False
        then have "\<not> bit v (n + j)" for j by (intro above) simp
        then have "\<not> bit sm n" unfolding smb by blast
        then show ?thesis using False by (simp add: bit_mask_iff)
      qed
    qed
    then have eq: "next_power_of_two x = 2 ^ Suc m" using np by (simp add: inc_mask_eq_exp)
    have le: "unat x \<le> 2 ^ Suc m" using hi uv by simp
    have least: "Suc m \<le> j" if "unat x \<le> 2 ^ j" for j
    proof (rule ccontr)
      assume "\<not> Suc m \<le> j"
      then have "j \<le> m" by simp
      then have "(2::nat) ^ j \<le> 2 ^ m" by (simp add: power_increasing)
      then show False using lo uv that assms(1) by linarith
    qed
    show ?thesis using eq le least m31 by (intro exI[of _ "Suc m"]) auto
  qed
qed


lemma clear_slots_apply:
  "clear_slots i n ws k = (if i \<le> k \<and> k < n then NULL else ws k)"
proof (induction i n ws rule: clear_slots.induct)
  case (1 i n ws)
  show ?case
  proof (cases "i < n")
    case True
    have "clear_slots i n ws k = clear_slots (i + 1) n (ws(i := NULL)) k"
      using True by (subst clear_slots.simps) simp
    also have "\<dots> = (if i + 1 \<le> k \<and> k < n then NULL else (ws(i := NULL)) k)"
      using 1[OF True] .
    finally show ?thesis using True by auto
  next
    case False
    then show ?thesis by (subst clear_slots.simps) auto
  qed
qed

lemma unat_pow2: fixes k::nat assumes "k < 32" shows "unat (2 ^ k :: u32) = 2 ^ k"
proof -
  have lt: "(2::nat) ^ k < 2 ^ LENGTH(32)" using assms by (intro power_strict_increasing) simp_all
  have "unat (of_nat (2 ^ k) :: u32) = 2 ^ k mod 2 ^ LENGTH(32)" by (rule unat_of_nat)
  also have "\<dots> = 2 ^ k" using lt by (rule mod_less)
  finally show ?thesis by simp
qed

lemma maybe_resize_grows:
  assumes gt: "nwatchers l < len"
    and rng: "unat len + 2 \<le> 2 ^ 31"
    and al: "alloc (unat (next_power_of_two (len + 2)))"
  shows "\<exists>l'. maybe_resize alloc l len = Inr l'
      \<and> l' = l\<lparr>watchers := watchers l', nwatchers := nwatchers l'\<rparr>
      \<and> nwatchers l' = next_power_of_two (len + 2) - 2
      \<and> is_next_pow2 (len + 2) (next_power_of_two (len + 2))
      \<and> len \<le> nwatchers l'
      \<and> (\<forall>i<unat (nwatchers l). watchers_at l' i = watchers_at l i)
      \<and> (\<forall>i. unat (nwatchers l) \<le> i \<and> i < unat (nwatchers l') \<longrightarrow> watchers_at l' i = NULL)
      \<and> watchers_at l' (unat (nwatchers l')) =
          (if watchers l = None then NULL else watchers_at l (unat (nwatchers l)))
      \<and> watchers_at l' (unat (nwatchers l') + 1) =
          (if watchers l = None then NULL else watchers_at l (unat (nwatchers l) + 1))"
proof -
  define p where "p = next_power_of_two (len + 2)"
  have ul: "unat (len + 2) = unat len + 2"
    using rng by (simp add: unat_word_ariths)
  have "0 < unat (len + 2)" "unat (len + 2) \<le> 2 ^ 31" using ul rng by simp_all
  from npot_pos[OF this] obtain k where k: "k \<le> 31" "p = 2 ^ k" "unat (len + 2) \<le> 2 ^ k"
    "\<forall>j. unat (len + 2) \<le> 2 ^ j \<longrightarrow> k \<le> j" unfolding p_def by blast
  have isn: "is_next_pow2 (len + 2) p" unfolding is_next_pow2_def using k by blast
  have up: "unat p = 2 ^ k" using k(1,2) by (simp add: unat_pow2)
  have p2: "2 \<le> unat p" using up k(3) ul by simp
  define nw where "nw = p - 2"
  have unw: "unat nw = unat p - 2" unfolding nw_def using p2
    by (simp add: unat_sub word_le_nat_alt)
  have nw2: "nw + 2 = p" unfolding nw_def by simp
  have len_le: "len \<le> nw" using unw up k(3) ul by (simp add: word_le_nat_alt)
  have nlt: "unat (nwatchers l) < unat nw" using gt len_le by (simp add: word_less_nat_alt word_le_nat_alt)
  have nle: "\<not> len \<le> nwatchers l" using gt by simp
  have noub: "\<not> unat (nw + 2) < unat nw + 2" using nw2 unw p2 by simp
  show ?thesis
    using al nle noub nlt isn len_le unfolding p_def[symmetric] 
    by (cases "watchers l")
       (simp_all add: maybe_resize_def Let_def p_def[symmetric] nw_def[symmetric] nw2 watchers_at_def clear_slots_apply)
qed


lemma fd_nonneg_unat:
  fixes fd :: u32
  assumes "0 \<le> sint fd"
  shows "sint fd = int (unat fd)" 
proof -
  have "take_bit 32 (uint fd) = uint fd" by (rule bintr_uint) simp
  then have e: "sint fd = uint fd - 2 ^ 32 * of_bool (bit (uint fd) 31)"
    by (simp add: sint_uint signed_take_bit_eq_take_bit_minus)
  have "uint fd < 2 ^ 32" using uint_bounded[of fd] by simp
  then have "\<not> bit (uint fd) 31" using assms e by (cases "bit (uint fd) 31") simp_all
  then show ?thesis using e by simp
qed

lemma npot_overflow: "next_power_of_two 0x80000001 = 0"
  by (simp add: next_power_of_two_def)

lemma maybe_resize_Inr:
  assumes r: "maybe_resize alloc l len = Inr l'" and len: "unat len < 2 ^ 31"
  shows "len \<le> nwatchers l' \<and> l' = l\<lparr>watchers := watchers l', nwatchers := nwatchers l'\<rparr>
      \<and> nwatchers l \<le> nwatchers l'
      \<and> (\<forall>i<unat (nwatchers l). watchers_at l' i = watchers_at l i)
      \<and> (\<forall>i. unat (nwatchers l) \<le> i \<and> i < unat (nwatchers l') \<longrightarrow> watchers_at l' i = NULL)"
proof (cases "len \<le> nwatchers l")
  case True
  then have "l' = l" using r by (simp add: maybe_resize_def)
  then show ?thesis using True by auto
next
  case False
  then have gt: "nwatchers l < len" by simp
  show ?thesis
  proof (cases "unat len + 2 \<le> 2 ^ 31")
    case True
    have al: "alloc (unat (next_power_of_two (len + 2)))"
      using r False by (auto simp add: maybe_resize_def Let_def split: if_splits prod.splits)
    from maybe_resize_grows[where alloc=alloc and l=l and len=len, OF gt True al] r gt show ?thesis by auto
  next
    case False
    then have "unat len = 2147483647" using len by simp
    then have "word_of_nat (unat len) = (word_of_nat 2147483647 :: u32)" by simp
    then have "len = 0x7FFFFFFF" by simp
    then show ?thesis using r gt
      by (simp add: maybe_resize_def Let_def npot_overflow split: if_splits prod.splits)
  qed
qed

section \<open>Properties of starting and stopping\<close>

lemma fd_succ:
  fixes fd :: u32
  assumes "0 \<le> sint fd" "sint fd < INT_MAX"
  shows "unat (fd + 1) = unat fd + 1" "unat (fd + 1) < 2 ^ 31" "fd + 1 \<le> n \<longleftrightarrow> fd < n"
proof -
  have "int (unat fd) < 2147483647"
    using assms fd_nonneg_unat[OF assms(1)] by (simp add: INT_MAX_def)
  then have u: "unat fd < 2147483647" by linarith
  then show a: "unat (fd + 1) = unat fd + 1" by (simp add: unat_word_ariths)
  show "unat (fd + 1) < 2 ^ 31" using a u by simp
  show "fd + 1 \<le> n \<longleftrightarrow> fd < n" using a by (auto simp add: word_le_nat_alt word_less_nat_alt)
qed

lemma uv__io_start_inv:
  assumes inv: "io_inv s w" and r: "uv__io_start alloc s w m = Inr s'"
  shows "io_inv s' w \<and> io_events (io s' w) = io_events (io s w) \<and> io_fd (io s' w) = io_fd (io s w)
    \<and> io_fd (io s' w) < nwatchers (loop s')"
proof -
  let ?fd = "io_fd (io s w)"
  have m: "m \<noteq> 0" "0 \<le> sint ?fd" "sint ?fd < INT_MAX"
    using r by (auto simp add: uv__io_start_def split: if_splits)
  let ?wr = "(io s w)\<lparr>io_pevents := io_pevents (io s w) OR m\<rparr>"
  have pe: "io_pevents ?wr \<noteq> 0" using m(1) by (simp add: or_eq_0_iff)
  obtain l where l: "maybe_resize alloc (loop s) (?fd + 1) = Inr l"
    using r m by (auto simp add: uv__io_start_def Let_def split: if_splits sum.splits)
  note mr = maybe_resize_Inr[OF l fd_succ(2)[OF m(2,3)]]
  have lt: "?fd < nwatchers l" using mr fd_succ(3)[OF m(2,3)] by simp
  have wq: "watcher_queue l = watcher_queue (loop s)"
    using mr by (metis (no_types) uv_loop_t.select_convs(8) uv_loop_t.surjective uv_loop_t.update_convs(6,7))
  have slot: "io_fd (io s w) < nwatchers (loop s) \<Longrightarrow> watchers_at l (unat ?fd) = watchers_at (loop s) (unat ?fd)"
    using mr by (simp add: word_less_nat_alt)
  have slot2: "\<not> io_fd (io s w) < nwatchers (loop s) \<Longrightarrow> watchers_at l (unat ?fd) = NULL"
    using mr lt by (simp add: word_less_nat_alt)
  show ?thesis
    using r m inv l pe lt wq slot slot2
    by (auto simp add: uv__io_start_def Let_def io_inv_def slot_of_def watchers_at_def watchers_set_def split: if_splits option.splits)
qed

lemma uv__io_stop_inv:
  assumes inv: "io_inv s w" and r: "uv__io_stop s w m = Inr s'"
  shows "io_inv s' w \<and> (io_events (io s w) = 0 \<longrightarrow> io_events (io s' w) = 0)
    \<and> io_fd (io s' w) = io_fd (io s w) \<and> nwatchers (loop s') = nwatchers (loop s)"
proof -
  have pe: "io_pevents (io s w) AND NOT m \<noteq> 0 \<Longrightarrow> io_pevents (io s w) \<noteq> 0" by auto
  show ?thesis
    using r inv pe
    by (auto simp add: uv__io_stop_def Let_def io_inv_def slot_of_def watchers_at_def watchers_set_def
        split: if_splits option.splits)
qed

lemma io_calls_inv:
  assumes "io_inv s w" "io_calls alloc s w cs = Inr s'"
  shows "io_inv s' w \<and> (io_events (io s w) = 0 \<longrightarrow> io_events (io s' w) = 0)
     \<and> io_fd (io s' w) = io_fd (io s w)"
  using assms
proof (induction cs arbitrary: s)
  case Nil
  then show ?case by simp
next
  case (Cons c cs)
  show ?case
  proof (cases c)
    case (Start m)
    then obtain s1 where s1: "uv__io_start alloc s w m = Inr s1" "io_calls alloc s1 w cs = Inr s'"
      using Cons.prems(2) by (auto split: sum.splits)
    from uv__io_start_inv[OF Cons.prems(1) s1(1)] Cons.IH[OF _ s1(2)] show ?thesis by simp
  next
    case (Stop m)
    then obtain s1 where s1: "uv__io_stop s w m = Inr s1" "io_calls alloc s1 w cs = Inr s'"
      using Cons.prems(2) by (auto split: sum.splits)
    from uv__io_stop_inv[OF Cons.prems(1) s1(1)] Cons.IH[OF _ s1(2)] show ?thesis by simp
  qed
qed
lemma uv__io_stop_frame:
  assumes "m AND NOT io_mask = 0" "m \<noteq> 0"
    and "io_fd (io s w) = - 1 \<or> (0 \<le> sint (io_fd (io s w)) \<and> nwatchers (loop s) \<le> io_fd (io s w))"
  shows "uv__io_stop s w m = Inr s"
  using assms by (auto simp add: uv__io_stop_def)

lemma start_idle:
  assumes idle: "io_idle s w" and r: "uv__io_start alloc s w m = Inr s1"
  shows "\<exists>l. maybe_resize alloc (loop s) (io_fd (io s w) + 1) = Inr l
     \<and> m \<noteq> 0 \<and> m AND NOT io_mask = 0 \<and> 0 \<le> sint (io_fd (io s w)) \<and> sint (io_fd (io s w)) < INT_MAX
     \<and> s1 = s\<lparr>io := (io s)(w := (io s w)\<lparr>io_pevents := m\<rparr>),
              loop := (if watchers_at l (unat (io_fd (io s w))) = NULL
                       then (watchers_set (l\<lparr>watcher_queue := watcher_queue l @ [w]\<rparr>)
                               (unat (io_fd (io s w))) (Watcher w))\<lparr>nfds := nfds l + 1\<rparr>
                       else l\<lparr>watcher_queue := watcher_queue l @ [w]\<rparr>)\<rparr>"
proof -
  have m: "m \<noteq> 0" "0 \<le> sint (io_fd (io s w))" "sint (io_fd (io s w)) < INT_MAX" "m AND NOT io_mask = 0"
    using r by (auto simp add: uv__io_start_def split: if_splits)
  obtain l where l: "maybe_resize alloc (loop s) (io_fd (io s w) + 1) = Inr l"
    using r m by (auto simp add: uv__io_start_def Let_def split: if_splits sum.splits)
  note mr = maybe_resize_Inr[OF l fd_succ(2)[OF m(2,3)]]
  have wq: "watcher_queue l = watcher_queue (loop s)"
    using mr by (metis (no_types) uv_loop_t.select_convs(8) uv_loop_t.surjective uv_loop_t.update_convs(6,7))
  have p0: "io_pevents (io s w) = 0" "io_events (io s w) = 0" "w \<notin> set (watcher_queue l)"
    using idle wq by (simp_all add: io_idle_def)
  show ?thesis
    using r m l p0
    by (auto simp add: uv__io_start_def Let_def watchers_set_def watchers_at_def split: if_splits)
qed

lemma start_stop_idle:
  assumes idle: "io_idle s w" and r1: "uv__io_start alloc s w m = Inr s1"
    and r2: "uv__io_stop s1 w m = Inr s2"
  shows "io_idle s2 w \<and> slot_of s2 w = NULL \<and> io_fd (io s2 w) = io_fd (io s w)
     \<and> io_fd (io s2 w) < nwatchers (loop s2)"
proof -
  let ?fd = "io_fd (io s w)"
  from start_idle[OF idle r1] obtain l where l: "maybe_resize alloc (loop s) (?fd + 1) = Inr l"
    and m: "m \<noteq> 0" "m AND NOT io_mask = 0" "0 \<le> sint ?fd" "sint ?fd < INT_MAX"
    and s1: "s1 = s\<lparr>io := (io s)(w := (io s w)\<lparr>io_pevents := m\<rparr>),
              loop := (if watchers_at l (unat ?fd) = NULL
                       then (watchers_set (l\<lparr>watcher_queue := watcher_queue l @ [w]\<rparr>)
                               (unat ?fd) (Watcher w))\<lparr>nfds := nfds l + 1\<rparr>
                       else l\<lparr>watcher_queue := watcher_queue l @ [w]\<rparr>)\<rparr>" by blast
  note mr = maybe_resize_Inr[OF l fd_succ(2)[OF m(3,4)]]
  have lt: "?fd < nwatchers l" using mr fd_succ(3)[OF m(3,4)] by simp
  have fr: "watcher_queue l = watcher_queue (loop s)" "pending_queue l = pending_queue (loop s)"
    using mr by (metis (no_types) uv_loop_t.select_convs(8,9) uv_loop_t.surjective uv_loop_t.update_convs(6,7))+
  have slots: "i < unat (nwatchers l) \<Longrightarrow> watchers_at l i \<noteq> Watcher w" for i
    using mr idle by (cases "i < unat (nwatchers (loop s))") (auto simp add: io_idle_def)
  have nm1: "\<not> ?fd = - 1" using m(3) by auto
  have nge: "\<not> nwatchers l \<le> ?fd" using lt by simp
  show ?thesis
    using r2 idle m lt fr slots nm1 nge unfolding s1
    by (auto simp add: uv__io_stop_def Let_def io_idle_def slot_of_def watchers_at_def watchers_set_def
        split: if_splits option.splits)
qed

lemma start_stop_returns:
  assumes idle: "io_idle s w" and mask: "m AND NOT io_mask = 0" "m \<noteq> 0"
    and fd: "0 \<le> sint (io_fd (io s w))" "sint (io_fd (io s w)) < INT_MAX"
    and room: "io_fd (io s w) < nwatchers (loop s) \<or>
               (sint (io_fd (io s w)) < INT_MAX - 1 \<and>
                alloc (unat (next_power_of_two (io_fd (io s w) + 1 + 2))))"
    and free: "io_fd (io s w) < nwatchers (loop s) \<longrightarrow> slot_of s w = NULL"
    and cnt: "nfds (loop s) + 1 \<noteq> 0"
  shows "\<exists>s1 s2. uv__io_start alloc s w m = Inr s1 \<and> uv__io_stop s1 w m = Inr s2"
proof -
  let ?fd = "io_fd (io s w)"
  have "\<exists>l. maybe_resize alloc (loop s) (?fd + 1) = Inr l"
  proof (cases "?fd < nwatchers (loop s)")
    case True
    then have "?fd + 1 \<le> nwatchers (loop s)" using fd_succ(3)[OF fd] by simp
    then show ?thesis by (simp add: maybe_resize_def)
  next
    case False
    then have a: "sint ?fd < INT_MAX - 1" "alloc (unat (next_power_of_two (?fd + 1 + 2)))"
      using room by simp_all
    have "int (unat ?fd) < 2147483646" using a(1) fd_nonneg_unat[OF fd(1)] by (simp add: INT_MAX_def)
    then have "unat ?fd < 2147483646" by linarith
    then have rng: "unat (?fd + 1) + 2 \<le> 2 ^ 31" using fd_succ(1)[OF fd] by simp
    have gt: "nwatchers (loop s) < ?fd + 1"
      using False fd_succ(3)[OF fd, of "nwatchers (loop s)"] by simp
    from maybe_resize_grows[where alloc=alloc and l="loop s" and len="?fd + 1", OF gt rng a(2)]
    show ?thesis by blast
  qed
  then obtain l where l: "maybe_resize alloc (loop s) (?fd + 1) = Inr l" by blast
  note mr = maybe_resize_Inr[OF l fd_succ(2)[OF fd]]
  have lt: "?fd < nwatchers l" using mr fd_succ(3)[OF fd] by simp
  have fr: "watcher_queue l = watcher_queue (loop s)" "nfds l = nfds (loop s)"
    using mr by (metis (no_types) uv_loop_t.select_convs(5,8) uv_loop_t.surjective uv_loop_t.update_convs(6,7))+
  have slot: "watchers_at l (unat ?fd) = NULL"
  proof (cases "?fd < nwatchers (loop s)")
    case True
    then show ?thesis using mr free by (simp add: slot_of_def word_less_nat_alt)
  next
    case False
    then show ?thesis using mr lt by (simp add: word_less_nat_alt)
  qed
  then have some: "watchers l \<noteq> None" by (auto simp add: watchers_at_def split: option.splits)
  have p0: "io_pevents (io s w) = 0" "io_events (io s w) = 0" "w \<notin> set (watcher_queue l)"
    using idle fr by (simp_all add: io_idle_def)
  have nm1: "\<not> ?fd = - 1" using fd(1) by auto
  have nge: "\<not> nwatchers l \<le> ?fd" using lt by simp
  have gt0: "0 < nfds l + 1" using cnt fr by (simp add: word_greater_zero_iff)
  have s1: "uv__io_start alloc s w m = Inr (s\<lparr>io := (io s)(w := (io s w)\<lparr>io_pevents := m\<rparr>),
              loop := (watchers_set (l\<lparr>watcher_queue := watcher_queue l @ [w]\<rparr>)
                               (unat ?fd) (Watcher w))\<lparr>nfds := nfds l + 1\<rparr>\<rparr>)"
    using mask fd l p0 slot
    by (simp add: uv__io_start_def Let_def watchers_set_def watchers_at_def)
  show ?thesis
    unfolding s1 using mask fd nm1 nge gt0 some
    by (auto simp add: uv__io_stop_def Let_def watchers_set_def watchers_at_def)
qed

section \<open>Properties of the dispatch loop\<close>


lemma uv__io_poll_event_trace:
  assumes "uv__io_poll_event E i (s, hs, ne, tr) = Inr (s', hs', ne', tr')"
  shows "(hs \<longrightarrow> hs') \<and> (\<exists>pre. list_all ordinary_cb pre \<and> tr' = tr @ pre)"
  using assms
  by (auto simp add: uv__io_poll_event_def Let_def split: if_splits voidp.splits sum.splits)

lemma uv__io_poll_events_trace:
  assumes "uv__io_poll_events E is (s, hs, ne, tr) = Inr (s', hs', ne', tr')"
  shows "(hs \<longrightarrow> hs') \<and> (\<exists>pre. list_all ordinary_cb pre \<and> tr' = tr @ pre)"
  using assms
proof (induction "is" arbitrary: s hs ne tr)
  case Nil
  then show ?case by simp
next
  case (Cons i "is")
  from Cons.prems obtain s1 hs1 ne1 tr1 where
    a: "uv__io_poll_event E i (s, hs, ne, tr) = Inr (s1, hs1, ne1, tr1)"
    and b: "uv__io_poll_events E is (s1, hs1, ne1, tr1) = Inr (s', hs', ne', tr')"
    by (auto split: sum.splits)
  from uv__io_poll_event_trace[OF a] Cons.IH[OF b] show ?case by auto
qed

lemma uv__io_poll_batch_trace:
  assumes "uv__io_poll_batch E n s tr = Inr (s', hs, ne, tr')"
  shows "\<exists>pre. list_all ordinary_cb pre \<and>
           tr' = tr @ pre @ (if hs then [Io_cb Signal_io_watcher POLLIN] else [])"
proof -
  let ?sp = "s\<lparr>loop := watchers_set (watchers_set (loop s) (unat (nwatchers (loop s))) Events_array)
      (unat (nwatchers (watchers_set (loop s) (unat (nwatchers (loop s))) Events_array)) + 1) (voidp_of_uintptr n)\<rparr>"
  from assms obtain s1 ne1 tr1 where
    a: "uv__io_poll_events E [0..<n] (?sp, False, 0, tr) = Inr (s1, hs, ne1, tr1)"
    and b: "tr' = tr1 @ (if hs then [Io_cb Signal_io_watcher POLLIN] else [])"
    by (auto simp add: uv__io_poll_batch_def Let_def split: if_splits sum.splits prod.splits)
  from uv__io_poll_events_trace[OF a] b show ?thesis by auto
qed

lemma uv__io_poll_round_trace:
  assumes "uv__io_poll_round E k timeout rt cnt base s tr = Inr (s', tr', nxt)"
  shows "\<exists>pre. list_all ordinary_cb pre \<and>
     (tr' = tr @ pre \<or> (tr' = tr @ pre @ [Io_cb Signal_io_watcher POLLIN] \<and> nxt = Return))"
proof -
  obtain n errno s1 where pw: "epoll_pwait k s = (n, errno, s1)" by (cases "epoll_pwait k s") auto
  show ?thesis
  proof (cases "n = 0 \<or> n = - 1")
    case True
    then have "tr' = tr" using assms pw
      by (auto simp add: uv__io_poll_round_def Let_def update_timeout_def split: if_splits)
    then show ?thesis by (intro exI[of _ "[]"]) simp
  next
    case False
    then obtain s2 hs ne where
      b: "uv__io_poll_batch E (nat n) (uv__update_time s1) tr = Inr (s2, hs, ne, tr')"
      and r: "hs \<longrightarrow> nxt = Return"
      using assms pw
      by (auto simp add: uv__io_poll_round_def Let_def update_timeout_def split: if_splits sum.splits)
    from uv__io_poll_batch_trace[OF b] r show ?thesis by (cases hs) auto
  qed
qed

lemma signal_event_deferred:
  assumes "signal_event s i"
  shows "\<exists>m. m \<noteq> 0 \<and> uv__io_poll_event E i (s, hs, ne, tr) =
     Inr (s\<lparr>events_buf := (events_buf s)(i := (events_buf s i)\<lparr>ev_events := m\<rparr>)\<rparr>, True, ne + 1, tr)"
  using assms
  by (auto simp add: signal_event_def uv__io_poll_event_def Let_def io_mask_def)


lemma signal_event_cong:
  assumes "signal_event s j"
    and "events_buf s' j = events_buf s j"
    and "io_pevents (io s' Signal_io_watcher) = io_pevents (io s Signal_io_watcher)"
    and "nwatchers (loop s') = nwatchers (loop s)"
    and "watchers_at (loop s') (unat (ev_fd (events_buf s j))) = watchers_at (loop s) (unat (ev_fd (events_buf s j)))"
  shows "signal_event s' j"
  using assms by (simp add: signal_event_def Let_def)

lemma uv__io_poll_event_keeps_signal:
  assumes frame: "\<And>w m s s'. io_cb E w m s = Inr s' \<Longrightarrow> signal_event s j \<Longrightarrow> signal_event s' j"
    and r: "uv__io_poll_event E i (s, hs, ne, tr) = Inr (s', hs', ne', tr')"
    and ij: "i \<noteq> j" and se: "signal_event s j"
  shows "signal_event s' j"
proof -
  have upd: "signal_event (s\<lparr>events_buf := (events_buf s)(i := x)\<rparr>) j" for x
    by (rule signal_event_cong[OF se]) (use ij in simp_all)
  have del: "signal_event (snd (epoll_ctl s op fd ev)) j" for op fd ev
    by (rule signal_event_cong[OF se])
      (auto simp add: epoll_ctl_def split: epoll_op.splits)
  from r have "s' = s \<or> (\<exists>op fd ev. s' = snd (epoll_ctl s op fd ev))
      \<or> (\<exists>x. s' = s\<lparr>events_buf := (events_buf s)(i := x)\<rparr>)
      \<or> (\<exists>w m x. io_cb E w m (s\<lparr>events_buf := (events_buf s)(i := x)\<rparr>) = Inr s')"
    by (simp add: uv__io_poll_event_def Let_def split: if_splits voidp.splits sum.splits) blast+
  then show ?thesis
  proof (elim disjE exE)
    assume "s' = s"
    then show ?thesis using se by simp
  next
    fix op fd ev assume "s' = snd (epoll_ctl s op fd ev)"
    then show ?thesis using del by simp
  next
    fix x assume "s' = s\<lparr>events_buf := (events_buf s)(i := x)\<rparr>"
    then show ?thesis using upd by simp
  next
    fix w m x assume "io_cb E w m (s\<lparr>events_buf := (events_buf s)(i := x)\<rparr>) = Inr s'"
    from frame[OF this upd] show ?thesis .
  qed
qed

lemma uv__io_poll_events_signal:
  assumes frame: "\<And>w m s s'. io_cb E w m s = Inr s' \<Longrightarrow> signal_event s j \<Longrightarrow> signal_event s' j"
    and r: "uv__io_poll_events E js (s, hs, ne, tr) = Inr (s', hs', ne', tr')"
    and h: "hs \<or> (j \<in> set js \<and> signal_event s j)"
  shows "hs'"
  using r h
proof (induction js arbitrary: s hs ne tr)
  case Nil
  then show ?case by simp
next
  case (Cons i js)
  from Cons.prems(1) obtain s1 hs1 ne1 tr1 where
    a: "uv__io_poll_event E i (s, hs, ne, tr) = Inr (s1, hs1, ne1, tr1)"
    and b: "uv__io_poll_events E js (s1, hs1, ne1, tr1) = Inr (s', hs', ne', tr')"
    by (auto split: sum.splits)
  have "hs1 \<or> (j \<in> set js \<and> signal_event s1 j)"
  proof (cases hs)
    case True
    then show ?thesis using uv__io_poll_event_trace[OF a] by simp
  next
    case False
    then have j: "j \<in> set (i # js)" and se: "signal_event s j" using Cons.prems(2) by simp_all
    show ?thesis
    proof (cases "i = j")
      case True
      from signal_event_deferred[OF se, of E hs ne tr] a True show ?thesis by auto
    next
      case False
      then have "j \<in> set js" using j by simp
      moreover have "signal_event s1 j"
        by (rule uv__io_poll_event_keeps_signal[OF frame a False se])
      ultimately show ?thesis by simp
    qed
  qed
  from Cons.IH[OF b this] show ?case .
qed

lemma uv__io_poll_batch_signal:
  assumes frame: "\<And>w m s s'. io_cb E w m s = Inr s' \<Longrightarrow> signal_event s j \<Longrightarrow> signal_event s' j"
    and r: "uv__io_poll_batch E n s tr = Inr (s', hs, ne, tr')"
    and j: "j < n" and se: "signal_event s j"
  shows "hs"
proof -
  let ?l1 = "watchers_set (loop s) (unat (nwatchers (loop s))) Events_array"
  let ?sp = "s\<lparr>loop := watchers_set ?l1 (unat (nwatchers ?l1) + 1) (voidp_of_uintptr n)\<rparr>"
  from r obtain s1 ne1 tr1 where
    a: "uv__io_poll_events E [0..<n] (?sp, False, 0, tr) = Inr (s1, hs, ne1, tr1)"
    by (auto simp add: uv__io_poll_batch_def Let_def split: if_splits sum.splits prod.splits)
  have lt: "unat (ev_fd (events_buf s j)) < unat (nwatchers (loop s))"
    using se by (simp add: signal_event_def Let_def word_less_nat_alt)
  have "signal_event ?sp j"
    by (rule signal_event_cong[OF se])
      (use lt in \<open>auto simp add: watchers_set_def watchers_at_def split: option.splits\<close>)
  with j have "False \<or> (j \<in> set [0..<n] \<and> signal_event ?sp j)" by simp
  from uv__io_poll_events_signal[OF frame a this] show ?thesis .
qed

lemma uv__io_poll_round_signal:
  assumes frame: "\<And>w m s s'. io_cb E w m s = Inr s' \<Longrightarrow> signal_event s j \<Longrightarrow> signal_event s' j"
    and pw: "epoll_pwait k s0 = (n, errno, s1)" and j: "int j < n"
    and se: "signal_event s1 j"
    and r: "uv__io_poll_round E k timeout rt cnt base s0 tr = Inr (s', tr', nxt)"
  shows "\<exists>pre. list_all ordinary_cb pre \<and> tr' = tr @ pre @ [Io_cb Signal_io_watcher POLLIN]
           \<and> nxt = Return"
proof -
  have n: "n \<noteq> 0" "n \<noteq> - 1" using j by simp_all
  from r pw n obtain s2 hs ne where
    b: "uv__io_poll_batch E (nat n) (uv__update_time s1) tr = Inr (s2, hs, ne, tr')"
    and ret: "hs \<longrightarrow> nxt = Return"
    by (auto simp add: uv__io_poll_round_def Let_def update_timeout_def split: if_splits sum.splits)
  have "signal_event (uv__update_time s1) j"
    by (rule signal_event_cong[OF se]) (simp_all add: uv__update_time_def watchers_at_def)
  from uv__io_poll_batch_signal[OF frame b _ this] j have hs by simp
  with uv__io_poll_batch_trace[OF b] ret show ?thesis by auto
qed

section \<open>Properties of the backend timeout\<close>


lemma fold_min_least:
  fixes t :: u64
  shows "fold min ts t \<in> set (t # ts) \<and> (\<forall>x\<in>set (t # ts). fold min ts t \<le> x)"
proof (induction ts arbitrary: t)
  case Nil
  then show ?case by simp
next
  case (Cons a ts)
  from Cons.IH[of "min a t"] show ?case by (auto simp add: min_def split: if_splits)
qed

lemma uv__next_timeout_cases:
  "(timer_heap l = [] \<longrightarrow> uv__next_timeout l = - 1)
   \<and> (timer_heap l \<noteq> [] \<longrightarrow>
        (\<exists>t\<in>set (timer_heap l). (\<forall>x\<in>set (timer_heap l). t \<le> x)
           \<and> uv__next_timeout l = (if t \<le> time l then 0 else uint t - uint (time l))))"
proof (cases "timer_heap l")
  case Nil
  then show ?thesis by (simp add: uv__next_timeout_def)
next
  case (Cons t ts)
  let ?e = "fold min ts t"
  have e: "?e \<in> set (timer_heap l)" "\<forall>x\<in>set (timer_heap l). ?e \<le> x"
    using fold_min_least[of ts t] Cons by simp_all
  have nt: "uv__next_timeout l = (if ?e \<le> time l then 0 else uint ?e - uint (time l))"
    using Cons by (auto simp add: uv__next_timeout_def Let_def uint_sub_if' word_le_def)
  show ?thesis
  proof (intro conjI impI)
    assume "timer_heap l = []"
    then show "uv__next_timeout l = - 1" using Cons by simp
  next
    show "\<exists>t\<in>set (timer_heap l). (\<forall>x\<in>set (timer_heap l). t \<le> x)
           \<and> uv__next_timeout l = (if t \<le> time l then 0 else uint t - uint (time l))"
      by (rule bexI[OF _ e(1)]) (use e(2) nt in simp)
  qed
qed

section \<open>Properties of closing and running\<close>



lemma uv__finish_close_trace:
  assumes "uv__finish_close E s h = Inr (s', tr)"
  shows "tr = [] \<or> tr = [Close_cb h]"
  using assms
  by (auto simp add: uv__finish_close_def Let_def split: if_splits sum.splits)

lemma finish_all_trace:
  assumes "finish_all E hs s tr = Inr (s', tr')"
  shows "\<exists>ks. subseq ks hs \<and> tr' = tr @ map Close_cb ks"
  using assms
proof (induction hs arbitrary: s tr)
  case Nil
  then show ?case by simp
next
  case (Cons p q)
  from Cons.prems obtain s1 tr1 where
    a: "uv__finish_close E s p = Inr (s1, tr1)" and b: "finish_all E q s1 (tr @ tr1) = Inr (s', tr')"
    by (auto split: sum.splits)
  from Cons.IH[OF b] obtain ks where ks: "subseq ks q" "tr' = (tr @ tr1) @ map Close_cb ks" by blast
  from uv__finish_close_trace[OF a] show ?case
  proof
    assume "tr1 = []"
    then show ?thesis using ks by (intro exI[of _ ks]) auto
  next
    assume "tr1 = [Close_cb p]"
    then show ?thesis using ks by (intro exI[of _ "p # ks"]) auto
  qed
qed

lemma uv__run_closing_handles_trace:
  assumes "uv__run_closing_handles E s = Inr (s', tr)"
  shows "\<exists>ks. subseq ks (closing_handles (loop s)) \<and> tr = map Close_cb ks"
  using finish_all_trace[of E "closing_handles (loop s)" _ "[]" s' tr] assms
  by (simp add: uv__run_closing_handles_def Let_def)

lemma uv_run_stop_flag:
  assumes "uv_run E fuel s mode sc = Some (Inr (r, s', tr, sc'))"
  shows "stop_flag (loop s') = 0"
  using assms
  by (auto simp add: uv_run_def Let_def split: option.splits sum.splits if_splits)


lemma ordinary_is_io: "list_all ordinary_cb xs \<Longrightarrow> list_all is_io_cb xs"
proof (induction xs)
  case Nil
  then show ?case by simp
next
  case (Cons x xs)
  then show ?case by (cases x) simp_all
qed

lemma run_pending_queue_trace:
  assumes "run_pending_queue E q s tr = Inr (s', tr')"
  shows "\<exists>ios. list_all is_io_cb ios \<and> tr' = tr @ ios"
  using assms
proof (induction q arbitrary: s tr)
  case Nil
  then show ?case by simp
next
  case (Cons w q)
  show ?case
  proof (cases "w \<in> set (pq s)")
    case False
    then show ?thesis using Cons by simp
  next
    case True
    then obtain s1 where a: "io_cb E w POLLOUT (s\<lparr>pq := removeAll w (pq s)\<rparr>) = Inr s1"
      and b: "run_pending_queue E q s1 (tr @ [Io_cb w POLLOUT]) = Inr (s', tr')"
      using Cons.prems by (auto split: sum.splits)
    from Cons.IH[OF b] obtain ios where "list_all is_io_cb ios" "tr' = (tr @ [Io_cb w POLLOUT]) @ ios"
      by blast
    then show ?thesis by (intro exI[of _ "Io_cb w POLLOUT # ios"]) simp
  qed
qed

lemma uv__run_pending_trace:
  assumes "uv__run_pending E s tr = Inr (rp, s', tr')"
  shows "\<exists>ios. list_all is_io_cb ios \<and> tr' = tr @ ios"
proof (cases "pending_queue (loop s) = []")
  case True
  then show ?thesis using assms by (simp add: uv__run_pending_def)
next
  case False
  then have "run_pending_queue E (pending_queue (loop s))
       (s\<lparr>pq := pending_queue (loop s), loop := (loop s)\<lparr>pending_queue := []\<rparr>\<rparr>) tr = Inr (s', tr')"
    using assms by (auto simp add: uv__run_pending_def Let_def split: sum.splits)
  then show ?thesis by (rule run_pending_queue_trace)
qed

lemma uv__io_poll_loop_trace:
  assumes "uv__io_poll_loop E sc timeout rt cnt base s tr = Inr (s', tr', sc')"
  shows "\<exists>ios. list_all is_io_cb ios \<and> tr' = tr @ ios"
  using assms
proof (induction sc arbitrary: timeout rt cnt s tr)
  case Nil
  then show ?case by simp
next
  case (Cons k sc)
  from Cons.prems obtain s1 tr1 nxt where
    a: "uv__io_poll_round E k timeout rt cnt base s tr = Inr (s1, tr1, nxt)"
    by (auto split: sum.splits)
  from uv__io_poll_round_trace[OF a] obtain pre where pre: "list_all ordinary_cb pre"
    "tr1 = tr @ pre \<or> (tr1 = tr @ pre @ [Io_cb Signal_io_watcher POLLIN] \<and> nxt = Return)"
    by blast
  then have "\<exists>ios. list_all is_io_cb ios \<and> tr1 = tr @ ios"
  proof (elim disjE)
    assume "tr1 = tr @ pre"
    then show ?thesis using ordinary_is_io[OF pre(1)] by blast
  next
    assume "tr1 = tr @ pre @ [Io_cb Signal_io_watcher POLLIN] \<and> nxt = Return"
    then show ?thesis using ordinary_is_io[OF pre(1)]
      by (intro exI[of _ "pre @ [Io_cb Signal_io_watcher POLLIN]"]) simp
  qed
  then obtain ios1 where ios1: "list_all is_io_cb ios1" "tr1 = tr @ ios1" by blast
  show ?case
  proof (cases nxt)
    case Return
    then have "tr' = tr1" using Cons.prems a by simp
    then show ?thesis using ios1 by blast
  next
    case (Continue t2 rt2 c2)
    then have "uv__io_poll_loop E sc t2 rt2 c2 base s1 tr1 = Inr (s', tr', sc')"
      using Cons.prems a by simp
    from Cons.IH[OF this] obtain ios2 where "list_all is_io_cb ios2" "tr' = tr1 @ ios2" by blast
    then show ?thesis using ios1 by (intro exI[of _ "ios1 @ ios2"]) simp
  qed
qed

lemma uv__io_poll_trace:
  assumes "uv__io_poll E s timeout sc = Inr (s', tr, sc')"
  shows "list_all is_io_cb tr"
proof (cases "nfds (loop s) = 0")
  case True
  then show ?thesis using assms by (auto simp add: uv__io_poll_def split: if_splits)
next
  case False
  then obtain s1 where "uv__io_poll_loop E sc timeout timeout 48 (time (loop s1)) s1 [] = Inr (s', tr, sc')"
    using assms by (auto simp add: uv__io_poll_def split: if_splits sum.splits)
  from uv__io_poll_loop_trace[OF this] show ?thesis by simp
qed

lemma phases_trace:
  assumes p: "uv__run_pending E sa tr = Inr (rp, sb, tra)"
    and q: "uv__io_poll E sc1 t sc = Inr (sd, tr1, sc')"
    and c: "uv__run_closing_handles E se = Inr (sf, tr2)"
  shows "\<exists>ios ks. list_all is_io_cb ios \<and> tra @ tr1 @ tr2 = tr @ ios @ map Close_cb ks"
proof -
  from uv__run_pending_trace[OF p] obtain ios0 where i0: "list_all is_io_cb ios0" "tra = tr @ ios0"
    by blast
  from uv__run_closing_handles_trace[OF c] obtain ks where ks: "tr2 = map Close_cb ks" by blast
  show ?thesis using i0 uv__io_poll_trace[OF q] ks
    by (intro exI[of _ "ios0 @ tr1"] exI[of _ ks]) simp
qed

lemma uv_run_iteration_trace:
  assumes "uv_run_iteration E mode sc s tr = Inr (s', tr', sc')"
  shows "\<exists>ios ks. list_all is_io_cb ios \<and> tr' = tr @ ios @ map Close_cb ks"
  using assms
  apply (auto simp add: uv_run_iteration_def Let_def split: sum.splits if_splits)
       apply (drule (2) phases_trace, blast)+
  done

lemma uv__handle_unref_other: "k \<noteq> h \<Longrightarrow> handles (uv__handle_unref s h) k = handles s k"
  by (simp add: uv__handle_unref_def Let_def)





lemma uv__handle_unref_pending:
  "k \<noteq> h \<Longrightarrow> close_pending (handles (uv__handle_unref s h) k) = close_pending (handles s k)"
  by (simp add: uv__handle_unref_other)







lemma io_calls_started:
  assumes "io_inv s w" and "io_calls alloc s w cs = Inr s'"
    and "io_fd (io s w) < nwatchers (loop s) \<or> (\<exists>m. Start m \<in> set cs)"
  shows "io_fd (io s' w) < nwatchers (loop s')"
  using assms
proof (induction cs arbitrary: s)
  case Nil
  then show ?case by simp
next
  case (Cons c cs)
  show ?case
  proof (cases c)
    case (Start m)
    then obtain s1 where s1: "uv__io_start alloc s w m = Inr s1" "io_calls alloc s1 w cs = Inr s'"
      using Cons.prems(2) by (auto split: sum.splits)
    note si = uv__io_start_inv[OF Cons.prems(1) s1(1)]
    have i1: "io_inv s1 w" using si by (rule conjunct1)
    have "io_fd (io s1 w) < nwatchers (loop s1)"
      using si by (elim conjE)
    then have "io_inv s1 w" "io_fd (io s1 w) < nwatchers (loop s1) \<or> (\<exists>m. Start m \<in> set cs)"
      using i1 by simp_all
    from Cons.IH[OF this(1) s1(2) this(2)] show ?thesis .
  next
    case (Stop m)
    then obtain s1 where s1: "uv__io_stop s w m = Inr s1" "io_calls alloc s1 w cs = Inr s'"
      using Cons.prems(2) by (auto split: sum.splits)
    from uv__io_stop_inv[OF Cons.prems(1) s1(1)]
    have i1: "io_inv s1 w" and f1: "io_fd (io s1 w) = io_fd (io s w)"
      and n1: "nwatchers (loop s1) = nwatchers (loop s)" by simp_all
    have "io_fd (io s1 w) < nwatchers (loop s1) \<or> (\<exists>m. Start m \<in> set cs)"
      using Cons.prems(3) Stop unfolding f1 n1 by auto
    with i1 have "io_inv s1 w" "io_fd (io s1 w) < nwatchers (loop s1) \<or> (\<exists>m. Start m \<in> set cs)"
      by simp_all
    from Cons.IH[OF this(1) s1(2) this(2)] show ?thesis .
  qed
qed


section \<open>The claims\<close>

subsection \<open>C1\<close>

text \<open>
  C1. \<open>uv_backend_timeout\<close> returns 0 when \<open>stop_flag\<close> is set, or there are no active
  handles and no active requests, or the idle queue is not empty, or the pending queue
  is not empty, or \<open>closing_handles\<close> is not null; otherwise it returns what
  \<open>uv__next_timeout\<close> gives: \<open>-1\<close> (no limit) when there are no timers, and else the
  time from \<open>loop->time\<close> to the earliest timer, 0 when that timer is already due, so
  never a negative number.
\<close>

theorem uv_backend_timeout_policy:
  "uv_backend_timeout l =
     (if stop_flag l \<noteq> 0 \<or> (active_handles l = 0 \<and> active_reqs l = 0) \<or> idle_handles l \<noteq> []
         \<or> pending_queue l \<noteq> [] \<or> closing_handles l \<noteq> []
      then 0 else uv__next_timeout l)
   \<and> (timer_heap l = [] \<longrightarrow> uv__next_timeout l = - 1)
   \<and> (timer_heap l \<noteq> [] \<longrightarrow>
        0 \<le> uv__next_timeout l
        \<and> (\<exists>t\<in>set (timer_heap l). (\<forall>x\<in>set (timer_heap l). t \<le> x)
              \<and> uv__next_timeout l = (if t \<le> time l then 0 else uint t - uint (time l))))"
proof -
  have a: "uv_backend_timeout l =
     (if stop_flag l \<noteq> 0 \<or> (active_handles l = 0 \<and> active_reqs l = 0) \<or> idle_handles l \<noteq> []
         \<or> pending_queue l \<noteq> [] \<or> closing_handles l \<noteq> []
      then 0 else uv__next_timeout l)"
    by (auto simp add: uv_backend_timeout_def uv__has_active_handles_def uv__has_active_reqs_def
        word_greater_zero_iff)
  have b: "timer_heap l \<noteq> [] \<longrightarrow> 0 \<le> uv__next_timeout l"
  proof
    assume "timer_heap l \<noteq> []"
    then obtain t where
      "uv__next_timeout l = (if t \<le> time l then 0 else uint t - uint (time l))"
      using uv__next_timeout_cases[of l] by blast
    then show "0 \<le> uv__next_timeout l"
      by (cases "t \<le> time l") (simp_all add: word_le_def)
  qed
  from a b uv__next_timeout_cases[of l] show ?thesis by blast
qed

theorem uv_backend_timeout_policy_witness:
  "timer_heap loop_timers \<noteq> [] \<and> uv_backend_timeout loop_timers = 7
   \<and> uv_backend_timeout (loop_timers\<lparr>stop_flag := 1\<rparr>) = 0
   \<and> uv_backend_timeout (loop_timers\<lparr>timer_heap := []\<rparr>) = - 1"
  using uv_backend_timeout_policy[of loop_timers]
    uv_backend_timeout_policy[of "loop_timers\<lparr>stop_flag := 1\<rparr>"]
    uv_backend_timeout_policy[of "loop_timers\<lparr>timer_heap := []\<rparr>"]
  by (simp add: loop_timers_def loop_init_def uv__next_timeout_def)

subsection \<open>C2\<close>

text \<open>
  C2, as amended. In the dispatch loop, for a ready event whose descriptor belongs to a
  watcher \<open>w\<close> other than the signal watcher, with desired mask \<open>M = w->pevents\<close>: let
  \<open>m\<close> be the returned events masked with \<open>M | POLLERR | POLLHUP\<close>. When \<open>m\<close> is exactly
  \<open>POLLERR\<close> or exactly \<open>POLLHUP\<close>, the bits \<open>M & (POLLIN|POLLOUT|POLLRDHUP|POLLPRI)\<close>
  are OR-ed in; otherwise (also when both error bits are set) \<open>m\<close> is left as it is. The
  result \<open>d\<close> is written back to the event, and the callback is called with \<open>d\<close>, once,
  exactly when \<open>d\<close> is not 0, which is when \<open>m\<close> is not 0; \<open>d\<close> has no bit outside
  \<open>M | POLLERR | POLLHUP\<close>.
\<close>

theorem dispatch_mask_delivered:
  assumes "ev_fd (events_buf s i) \<noteq> - 1" and "0 \<le> sint (ev_fd (events_buf s i))"
    and "ev_fd (events_buf s i) < nwatchers (loop s)"
    and "watchers_at (loop s) (unat (ev_fd (events_buf s i))) = Watcher w"
    and "w \<noteq> Signal_io_watcher"
    and "m = ev_events (events_buf s i) AND (io_pevents (io s w) OR POLLERR OR POLLHUP)"
    and "d = (if m = POLLERR \<or> m = POLLHUP then m OR (io_pevents (io s w) AND io_mask) else m)"
    and "s1 = s\<lparr>events_buf := (events_buf s)(i := (events_buf s i)\<lparr>ev_events := d\<rparr>)\<rparr>"
  shows "uv__io_poll_event E i (s, hs, ne, tr) =
           (if d = 0 then Inr (s1, hs, ne, tr)
            else case io_cb E w d s1 of
                   Inl e \<Rightarrow> Inl e
                 | Inr s' \<Rightarrow> Inr (s', hs, ne + 1, tr @ [Io_cb w d]))
       \<and> d AND NOT (io_pevents (io s w) OR POLLERR OR POLLHUP) = 0
       \<and> (d = 0 \<longleftrightarrow> m = 0)"
proof -
  have e: "uv__io_poll_event E i (s, hs, ne, tr) =
           (if d \<noteq> 0 then
              case io_cb E w d s1 of
                Inl e \<Rightarrow> Inl e
              | Inr s \<Rightarrow> Inr (s, hs, ne + 1, tr @ [Io_cb w d])
            else Inr (s1, hs, ne, tr))"
    using assms(1-5)
    unfolding uv__io_poll_event_def assms(8) assms(7) assms(6) io_mask_def Let_def
    by (simp only: prod.case if_False if_True voidp.case not_False_eq_True not_not simp_thms)
  have a: "uv__io_poll_event E i (s, hs, ne, tr) =
           (if d = 0 then Inr (s1, hs, ne, tr)
            else case io_cb E w d s1 of
                   Inl e \<Rightarrow> Inl e
                 | Inr s' \<Rightarrow> Inr (s', hs, ne + 1, tr @ [Io_cb w d]))"
    unfolding e by simp
  have b: "d AND NOT (io_pevents (io s w) OR POLLERR OR POLLHUP) = 0"
    unfolding assms(7) assms(6)
    by (simp add: bit_eq_iff bit_and_iff bit_or_iff bit_not_iff)
  have c: "d = 0 \<longleftrightarrow> m = 0"
    unfolding assms(7) by (auto simp add: or_eq_0_iff POLLERR_def POLLHUP_def)
  from a b c show ?thesis by blast
qed

theorem dispatch_mask_delivered_witness:
  "ev_fd (events_buf world_hup 0) \<noteq> - 1 \<and> 0 \<le> sint (ev_fd (events_buf world_hup 0))
   \<and> ev_fd (events_buf world_hup 0) < nwatchers (loop world_hup)
   \<and> watchers_at (loop world_hup) (unat (ev_fd (events_buf world_hup 0))) = Watcher (Io_watcher 0)
   \<and> io_pevents (io world_hup (Io_watcher 0)) = POLLIN
   \<and> (\<exists>s'. uv__io_poll_event env_quiet 0 (world_hup, False, 0, [])
              = Inr (s', False, 1, [Io_cb (Io_watcher 0) (POLLHUP OR POLLIN)]))"
proof -
  let ?w = "Io_watcher 0"
  have h: "ev_fd (events_buf world_hup 0) \<noteq> - 1" "0 \<le> sint (ev_fd (events_buf world_hup 0))"
    by (simp_all add: world_hup_def)
  have n: "ev_fd (events_buf world_hup 0) < nwatchers (loop world_hup)" by code_simp
  have sl: "watchers_at (loop world_hup) (unat (ev_fd (events_buf world_hup 0))) = Watcher ?w"
    by code_simp
  have p: "io_pevents (io world_hup ?w) = POLLIN" by code_simp
  have m: "POLLHUP = ev_events (events_buf world_hup 0) AND (io_pevents (io world_hup ?w) OR POLLERR OR POLLHUP)"
    unfolding p by (simp add: world_hup_def POLLHUP_def POLLIN_def POLLERR_def)
  have d: "POLLHUP OR POLLIN =
      (if POLLHUP = POLLERR \<or> POLLHUP = POLLHUP
       then POLLHUP OR (io_pevents (io world_hup ?w) AND io_mask) else POLLHUP)"
    unfolding p
    by (simp add: POLLHUP_def POLLIN_def io_mask_def POLLOUT_def UV__POLLRDHUP_def UV__POLLPRI_def)
  have nz: "POLLHUP OR POLLIN \<noteq> 0" by (simp add: POLLHUP_def POLLIN_def)
  from dispatch_mask_delivered[OF h n sl _ m d refl, of env_quiet False 0 "[]"] nz
  have "\<exists>s'. uv__io_poll_event env_quiet 0 (world_hup, False, 0, [])
              = Inr (s', False, 1, [Io_cb ?w (POLLHUP OR POLLIN)])"
    by (simp add: env_quiet_def)
  with h n sl p show ?thesis by blast
qed

text \<open>
  C2 as stated fails when both error bits come back: for the registered watcher 0
  (\<open>pevents == POLLIN\<close>) and the returned events \<open>POLLERR | POLLHUP\<close>, the masked result
  has only error and hangup bits, yet the callback gets \<open>POLLERR | POLLHUP\<close> without
  \<open>POLLIN\<close>.
\<close>

theorem dispatch_mask_delivered_counterexample:
  "io_pevents (io world_armed (Io_watcher 0)) = POLLIN
   \<and> map_sum id (fst \<circ> snd)
        (uv__io_poll env_quiet world_armed 0
           [(0, Wait_events [\<lparr>ev_events = POLLERR OR POLLHUP, ev_fd = 5\<rparr>])])
       = Inr [Io_cb (Io_watcher 0) (POLLERR OR POLLHUP)]
   \<and> (POLLERR OR POLLHUP) AND (POLLIN OR POLLERR OR POLLHUP) AND NOT (POLLERR OR POLLHUP) = 0
   \<and> (POLLERR OR POLLHUP) AND POLLIN = 0"
  by code_simp

subsection \<open>C3\<close>

text \<open>
  C3. Let the backend return a batch whose event at some index \<open>j\<close> is a live event for
  the loop's signal watcher, and let the callbacks of the other watchers leave that
  event, the signal watcher's mask and its slot of the table alone. Then in the dispatch
  of this batch every callback of an ordinary watcher is made before the callback of
  the signal watcher, which is made exactly once, with \<open>POLLIN\<close>, after the dispatch
  loop, and this round of \<open>uv__io_poll\<close> returns without polling again. For callbacks of
  any kind: an event that meets the signal watcher calls nothing and sets
  \<open>have_signals\<close>; the flag stays set; a batch calls ordinary callbacks and then, if the
  flag is set, the signal callback once; and a round that has called the signal
  callback returns.
\<close>

theorem signal_watcher_runs_last:
  assumes "\<And>w m s s'. io_cb E w m s = Inr s' \<Longrightarrow> signal_event s j \<Longrightarrow> signal_event s' j"
    and "epoll_pwait k s0 = (n, errno, s1)" and "int j < n" and "signal_event s1 j"
    and "uv__io_poll_round E k timeout real_timeout cnt base s0 tr = Inr (s', tr', nxt)"
  shows "(\<exists>pre. list_all ordinary_cb pre \<and> tr' = tr @ pre @ [Io_cb Signal_io_watcher POLLIN]
            \<and> nxt = Return)
   \<and> (signal_event s2 i \<longrightarrow>
        (\<exists>s3. uv__io_poll_event E i (s2, hs2, ne2, tr2) = Inr (s3, True, ne2 + 1, tr2)))
   \<and> (uv__io_poll_events E js (s4, True, ne4, tr4) = Inr (s5, hs5, ne5, tr5) \<longrightarrow> hs5)
   \<and> (uv__io_poll_batch E m s6 tr6 = Inr (s7, hs7, ne7, tr7) \<longrightarrow>
        (\<exists>pre. list_all ordinary_cb pre
           \<and> tr7 = tr6 @ pre @ (if hs7 then [Io_cb Signal_io_watcher POLLIN] else [])))
   \<and> (uv__io_poll_round E k8 timeout8 real_timeout8 cnt8 base8 s8 tr8 = Inr (s9, tr9, nxt9) \<longrightarrow>
        (\<exists>pre. list_all ordinary_cb pre
           \<and> (tr9 = tr8 @ pre
                \<or> (tr9 = tr8 @ pre @ [Io_cb Signal_io_watcher POLLIN] \<and> nxt9 = Return))))"
proof (intro conjI impI)
  show "\<exists>pre. list_all ordinary_cb pre \<and> tr' = tr @ pre @ [Io_cb Signal_io_watcher POLLIN]
            \<and> nxt = Return"
    by (rule uv__io_poll_round_signal[OF assms])
next
  assume "signal_event s2 i"
  from signal_event_deferred[OF this, of E hs2 ne2 tr2]
  show "\<exists>s3. uv__io_poll_event E i (s2, hs2, ne2, tr2) = Inr (s3, True, ne2 + 1, tr2)"
    by blast
next
  assume "uv__io_poll_events E js (s4, True, ne4, tr4) = Inr (s5, hs5, ne5, tr5)"
  from uv__io_poll_events_trace[OF this] show hs5 by simp
next
  assume "uv__io_poll_batch E m s6 tr6 = Inr (s7, hs7, ne7, tr7)"
  then show "\<exists>pre. list_all ordinary_cb pre
           \<and> tr7 = tr6 @ pre @ (if hs7 then [Io_cb Signal_io_watcher POLLIN] else [])"
    by (rule uv__io_poll_batch_trace)
next
  assume "uv__io_poll_round E k8 timeout8 real_timeout8 cnt8 base8 s8 tr8 = Inr (s9, tr9, nxt9)"
  then show "\<exists>pre. list_all ordinary_cb pre
           \<and> (tr9 = tr8 @ pre
                \<or> (tr9 = tr8 @ pre @ [Io_cb Signal_io_watcher POLLIN] \<and> nxt9 = Return))"
    by (rule uv__io_poll_round_trace)
qed

text \<open>
  The scenario for C3: the backend reports the signal watcher's descriptor first and
  the data watcher's second; the data callback still runs first, the signal callback
  second, and the next answer of the backend is left unused.
\<close>

theorem signal_watcher_runs_last_witness:
  "fst (epoll_pwait signal_first world_signal) = 2
   \<and> signal_event (snd (snd (epoll_pwait signal_first world_signal))) 0
   \<and> (\<exists>s'. uv__io_poll_round env_quiet signal_first 0 0 48 0 world_signal []
          = Inr (s', [Io_cb (Io_watcher 0) POLLIN, Io_cb Signal_io_watcher POLLIN], Return))
   \<and> map_sum id snd (uv__io_poll env_quiet world_signal 0 [signal_first, (7, Wait_events [])])
       = Inr ([Io_cb (Io_watcher 0) POLLIN, Io_cb Signal_io_watcher POLLIN], [(7, Wait_events [])])"
proof -
  let ?r = "uv__io_poll_round env_quiet signal_first 0 0 48 0 world_signal []"
  let ?p = "epoll_pwait signal_first world_signal"
  have frame: "io_cb env_quiet w m s = Inr s' \<Longrightarrow> signal_event s 0 \<Longrightarrow> signal_event s' 0"
    for w m s s'
    by (simp add: env_quiet_def)
  have pw: "?p = (fst ?p, fst (snd ?p), snd (snd ?p))" by simp
  have n2: "fst ?p = 2" by code_simp
  then have n: "int 0 < fst ?p" by simp
  have se: "signal_event (snd (snd ?p)) 0" by code_simp
  have "map_sum id (length \<circ> fst \<circ> snd) ?r = Inr 2" by code_simp
  then obtain s' tr' nxt where r: "?r = Inr (s', tr', nxt)" and len: "length tr' = 2"
    by (cases ?r) auto
  have "map_sum id (hd \<circ> fst \<circ> snd) ?r = Inr (Io_cb (Io_watcher 0) POLLIN)"
    by code_simp
  then have hd: "hd tr' = Io_cb (Io_watcher 0) POLLIN" using r by simp
  have t: "\<exists>pre. list_all ordinary_cb pre
      \<and> tr' = [] @ pre @ [Io_cb Signal_io_watcher POLLIN] \<and> nxt = Return"
  proof (rule signal_watcher_runs_last[where E=env_quiet and j=0 and k=signal_first
        and ?s0.0=world_signal and n="fst ?p" and errno="fst (snd ?p)" and ?s1.0="snd (snd ?p)"
        and timeout=0 and real_timeout=0 and cnt=48 and base=0 and tr="[]"
        and s'=s' and tr'=tr' and nxt=nxt, THEN conjunct1])
    show "epoll_pwait signal_first world_signal = (fst ?p, fst (snd ?p), snd (snd ?p))"
      by (rule pw)
    show "int 0 < fst ?p" by (rule n)
    show "signal_event (snd (snd ?p)) 0" by (rule se)
    show "?r = Inr (s', tr', nxt)" by (rule r)
    show "\<And>w m s s'. io_cb env_quiet w m s = Inr s' \<Longrightarrow> signal_event s 0 \<Longrightarrow> signal_event s' 0"
      by (rule frame)
  qed
  from t obtain pre where pre: "tr' = [] @ pre @ [Io_cb Signal_io_watcher POLLIN]" "nxt = Return"
    by blast
  with len hd have tr': "tr' = [Io_cb (Io_watcher 0) POLLIN, Io_cb Signal_io_watcher POLLIN]"
    by (cases pre) auto
  have poll: "map_sum id snd (uv__io_poll env_quiet world_signal 0 [signal_first, (7, Wait_events [])])
       = Inr ([Io_cb (Io_watcher 0) POLLIN, Io_cb Signal_io_watcher POLLIN], [(7, Wait_events [])])"
    by code_simp
  from n2 se r tr' pre(2) poll show ?thesis by blast
qed

subsection \<open>C4\<close>




subsection \<open>C5\<close>

text \<open>
  C5, as amended. Let \<open>w\<close> satisfy the watcher invariant \<open>io_inv\<close>; it holds of an
  initialised watcher that was never started, and of the watcher registered by the poll
  in the states used below. After every sequence of \<open>uv__io_start\<close> and \<open>uv__io_stop\<close>
  calls on \<open>w\<close> that return, the invariant holds again; once \<open>w\<close> was started,
  \<open>pevents == 0\<close> holds if and only if \<open>loop->watchers[w->fd]\<close> is null;
  \<open>pevents != events\<close> implies that \<open>w\<close> is in \<open>watcher_queue\<close>; and the converse, so the
  whole second equivalence, holds when \<open>w\<close> has no events registered with the backend
  (\<open>events == 0\<close>) at the start of the sequence.
\<close>

theorem io_calls_keep_invariant:
  assumes "io_inv s w" and "io_calls alloc s w cs = Inr s'"
  shows "io_inv s' w
     \<and> ((\<exists>m. Start m \<in> set cs) \<longrightarrow> io_fd (io s' w) < nwatchers (loop s'))
     \<and> (io_fd (io s' w) < nwatchers (loop s') \<longrightarrow>
          (io_pevents (io s' w) = 0 \<longleftrightarrow> slot_of s' w = NULL))
     \<and> (io_pevents (io s' w) \<noteq> io_events (io s' w) \<longrightarrow> w \<in> set (watcher_queue (loop s')))
     \<and> (io_events (io s w) = 0 \<longrightarrow>
          io_events (io s' w) = 0
          \<and> (io_pevents (io s' w) = io_events (io s' w) \<longleftrightarrow> w \<notin> set (watcher_queue (loop s'))))"
proof -
  from io_calls_inv[OF assms]
  have i: "io_inv s' w" and e: "io_events (io s w) = 0 \<longrightarrow> io_events (io s' w) = 0"
    by simp_all
  have st: "(\<exists>m. Start m \<in> set cs) \<longrightarrow> io_fd (io s' w) < nwatchers (loop s')"
    using io_calls_started[OF assms] by blast
  have A: "io_fd (io s' w) < nwatchers (loop s') \<longrightarrow>
          (io_pevents (io s' w) = 0 \<longleftrightarrow> slot_of s' w = NULL)"
    using i unfolding io_inv_def by blast
  have B: "io_pevents (io s' w) \<noteq> io_events (io s' w) \<longrightarrow> w \<in> set (watcher_queue (loop s'))"
    using i unfolding io_inv_def by blast
  have C: "io_events (io s' w) = 0 \<longrightarrow>
      (io_pevents (io s' w) = io_events (io s' w) \<longleftrightarrow> w \<notin> set (watcher_queue (loop s')))"
    using i unfolding io_inv_def by metis
  from i st A B C e show ?thesis by blast
qed

theorem io_calls_keep_invariant_witness:
  "io_inv (world_fd (Io_watcher 0) 5) (Io_watcher 0)
   \<and> (\<exists>s'. io_calls alloc_always (world_fd (Io_watcher 0) 5) (Io_watcher 0)
              [Start POLLIN, Start POLLOUT, Stop POLLIN] = Inr s'
          \<and> io_inv s' (Io_watcher 0)
          \<and> io_pevents (io s' (Io_watcher 0)) \<noteq> 0 \<and> slot_of s' (Io_watcher 0) \<noteq> NULL
          \<and> io_pevents (io s' (Io_watcher 0)) \<noteq> io_events (io s' (Io_watcher 0))
          \<and> Io_watcher 0 \<in> set (watcher_queue (loop s')))"
proof -
  let ?s = "world_fd (Io_watcher 0) 5"
  let ?w = "Io_watcher 0"
  let ?cs = "[Start POLLIN, Start POLLOUT, Stop POLLIN]"
  have i: "io_inv ?s ?w"
    by (simp add: io_inv_def slot_of_def world_fd_def world_init_def loop_init_def)
  have "map_sum id (\<lambda>s'. io_pevents (io s' ?w)) (io_calls alloc_always ?s ?w ?cs) = Inr 4"
    by code_simp
  then obtain s' where s': "io_calls alloc_always ?s ?w ?cs = Inr s'" "io_pevents (io s' ?w) = 4"
    by (cases "io_calls alloc_always ?s ?w ?cs") auto
  have e0: "io_events (io ?s ?w) = 0" by (simp add: world_fd_def)
  have st: "\<exists>m. Start m \<in> set ?cs" by auto
  note t = io_calls_keep_invariant[OF i s'(1)]
  from t st s'(2) e0 have
    "io_inv s' ?w \<and> io_pevents (io s' ?w) \<noteq> 0 \<and> slot_of s' ?w \<noteq> NULL
     \<and> io_pevents (io s' ?w) \<noteq> io_events (io s' ?w) \<and> ?w \<in> set (watcher_queue (loop s'))"
    unfolding io_inv_def by auto
  with i s'(1) show ?thesis by blast
qed

text \<open>
  C5 as stated fails for a watcher that the poll has registered: watcher 0 on descriptor
  5, started for \<open>POLLIN\<close> and flushed (\<open>events == pevents == POLLIN\<close>, not queued), is
  started and stopped for \<open>POLLOUT\<close>. It then has \<open>pevents == events\<close> again, yet it is
  still a member of \<open>watcher_queue\<close>.
\<close>

theorem io_calls_keep_invariant_counterexample:
  "io_inv world_armed (Io_watcher 0)
   \<and> io_fd (io world_armed (Io_watcher 0)) < nwatchers (loop world_armed)
   \<and> world_flapped = io_calls alloc_always world_armed (Io_watcher 0) [Start POLLOUT, Stop POLLOUT]
   \<and> world_flapped = Inr (projr world_flapped)
   \<and> io_pevents (io (projr world_flapped) (Io_watcher 0))
       = io_events (io (projr world_flapped) (Io_watcher 0))
   \<and> Io_watcher 0 \<in> set (watcher_queue (loop (projr world_flapped)))"
proof -
  let ?w = "Io_watcher 0"
  have a: "io_inv world_armed ?w" by code_simp
  have b: "io_fd (io world_armed ?w) < nwatchers (loop world_armed)" by code_simp
  have c: "\<not> isl world_flapped" by code_simp
  then have d: "world_flapped = Inr (projr world_flapped)" by (cases world_flapped) simp_all
  have e: "io_pevents (io (projr world_flapped) ?w) = io_events (io (projr world_flapped) ?w)"
    by code_simp
  have f: "?w \<in> set (watcher_queue (loop (projr world_flapped)))" by code_simp
  from a b d e f show ?thesis by (simp add: world_flapped_def)
qed

subsection \<open>C6\<close>

text \<open>
  C6. For every idle watcher (no pending and no registered events, in no queue, not in
  the watcher table) and every non-empty permitted mask \<open>m\<close>, whenever
  \<open>uv__io_start(loop, w, m)\<close> followed by \<open>uv__io_stop(loop, w, m)\<close> returns, the watcher
  is idle again: \<open>pevents\<close> and \<open>events\<close> are 0, it is in neither \<open>watcher_queue\<close> nor
  \<open>pending_queue\<close>, and \<open>loop->watchers[w->fd]\<close> is null. Both calls do return when the
  descriptor is valid, its slot of the table is free, the table can be grown if it has
  to be, and the counter \<open>nfds\<close> is not at its maximum.
\<close>

theorem start_stop_restores_idle:
  assumes "io_idle s w" and "m AND NOT io_mask = 0" and "m \<noteq> 0"
  shows "(\<forall>s1 s2. uv__io_start alloc s w m = Inr s1 \<and> uv__io_stop s1 w m = Inr s2 \<longrightarrow>
            io_pevents (io s2 w) = 0 \<and> io_events (io s2 w) = 0
          \<and> w \<notin> set (watcher_queue (loop s2)) \<and> w \<notin> set (pending_queue (loop s2))
          \<and> slot_of s2 w = NULL \<and> io_idle s2 w \<and> io_fd (io s2 w) = io_fd (io s w))
       \<and> (0 \<le> sint (io_fd (io s w)) \<and> sint (io_fd (io s w)) < INT_MAX
          \<and> (io_fd (io s w) < nwatchers (loop s) \<or>
               (sint (io_fd (io s w)) < INT_MAX - 1 \<and>
                alloc (unat (next_power_of_two (io_fd (io s w) + 1 + 2)))))
          \<and> (io_fd (io s w) < nwatchers (loop s) \<longrightarrow> slot_of s w = NULL)
          \<and> nfds (loop s) + 1 \<noteq> 0
          \<longrightarrow> (\<exists>s1 s2. uv__io_start alloc s w m = Inr s1 \<and> uv__io_stop s1 w m = Inr s2))"
proof (rule conjI)
  show "\<forall>s1 s2. uv__io_start alloc s w m = Inr s1 \<and> uv__io_stop s1 w m = Inr s2 \<longrightarrow>
            io_pevents (io s2 w) = 0 \<and> io_events (io s2 w) = 0
          \<and> w \<notin> set (watcher_queue (loop s2)) \<and> w \<notin> set (pending_queue (loop s2))
          \<and> slot_of s2 w = NULL \<and> io_idle s2 w \<and> io_fd (io s2 w) = io_fd (io s w)"
  proof (intro allI impI)
    fix s1 s2
    assume r: "uv__io_start alloc s w m = Inr s1 \<and> uv__io_stop s1 w m = Inr s2"
    then have r1: "uv__io_start alloc s w m = Inr s1" and r2: "uv__io_stop s1 w m = Inr s2"
      by simp_all
    from start_stop_idle[OF assms(1) r1 r2]
    show "io_pevents (io s2 w) = 0 \<and> io_events (io s2 w) = 0
          \<and> w \<notin> set (watcher_queue (loop s2)) \<and> w \<notin> set (pending_queue (loop s2))
          \<and> slot_of s2 w = NULL \<and> io_idle s2 w \<and> io_fd (io s2 w) = io_fd (io s w)"
      by (simp add: io_idle_def)
  qed
next
  show "0 \<le> sint (io_fd (io s w)) \<and> sint (io_fd (io s w)) < INT_MAX
          \<and> (io_fd (io s w) < nwatchers (loop s) \<or>
               (sint (io_fd (io s w)) < INT_MAX - 1 \<and>
                alloc (unat (next_power_of_two (io_fd (io s w) + 1 + 2)))))
          \<and> (io_fd (io s w) < nwatchers (loop s) \<longrightarrow> slot_of s w = NULL)
          \<and> nfds (loop s) + 1 \<noteq> 0
          \<longrightarrow> (\<exists>s1 s2. uv__io_start alloc s w m = Inr s1 \<and> uv__io_stop s1 w m = Inr s2)"
  proof
    assume a: "0 \<le> sint (io_fd (io s w)) \<and> sint (io_fd (io s w)) < INT_MAX
          \<and> (io_fd (io s w) < nwatchers (loop s) \<or>
               (sint (io_fd (io s w)) < INT_MAX - 1 \<and>
                alloc (unat (next_power_of_two (io_fd (io s w) + 1 + 2)))))
          \<and> (io_fd (io s w) < nwatchers (loop s) \<longrightarrow> slot_of s w = NULL)
          \<and> nfds (loop s) + 1 \<noteq> 0"
    show "\<exists>s1 s2. uv__io_start alloc s w m = Inr s1 \<and> uv__io_stop s1 w m = Inr s2"
      by (rule start_stop_returns[OF assms]) (use a in blast)+
  qed
qed

theorem start_stop_restores_idle_witness:
  "io_idle (world_fd (Io_watcher 0) 5) (Io_watcher 0) \<and> POLLIN AND NOT io_mask = 0 \<and> POLLIN \<noteq> 0
   \<and> (\<exists>s1 s2. uv__io_start alloc_always (world_fd (Io_watcher 0) 5) (Io_watcher 0) POLLIN = Inr s1
          \<and> uv__io_stop s1 (Io_watcher 0) POLLIN = Inr s2
          \<and> io_idle s2 (Io_watcher 0) \<and> slot_of s2 (Io_watcher 0) = NULL)"
proof -
  let ?s = "world_fd (Io_watcher 0) 5"
  let ?w = "Io_watcher 0"
  have m: "POLLIN AND NOT io_mask = 0" "POLLIN \<noteq> 0"
    by (simp_all add: POLLIN_def io_mask_def POLLOUT_def UV__POLLRDHUP_def UV__POLLPRI_def)
  have i: "io_idle ?s ?w"
    by (simp add: io_idle_def world_fd_def world_init_def loop_init_def)
  have side: "0 \<le> sint (io_fd (io ?s ?w)) \<and> sint (io_fd (io ?s ?w)) < INT_MAX
          \<and> (io_fd (io ?s ?w) < nwatchers (loop ?s) \<or>
               (sint (io_fd (io ?s ?w)) < INT_MAX - 1 \<and>
                alloc_always (unat (next_power_of_two (io_fd (io ?s ?w) + 1 + 2)))))
          \<and> (io_fd (io ?s ?w) < nwatchers (loop ?s) \<longrightarrow> slot_of ?s ?w = NULL)
          \<and> nfds (loop ?s) + 1 \<noteq> 0"
    by (simp add: world_fd_def world_init_def loop_init_def INT_MAX_def)
  note t = start_stop_restores_idle[OF i m, of alloc_always]
  from t side obtain s1 s2 where
    r: "uv__io_start alloc_always ?s ?w POLLIN = Inr s1 \<and> uv__io_stop s1 ?w POLLIN = Inr s2"
    by blast
  with t have "io_idle s2 ?w \<and> slot_of s2 ?w = NULL" by blast
  with r i m show ?thesis by blast
qed

subsection \<open>C7\<close>

text \<open>
  C7, as amended. For every requested length \<open>len\<close> greater than \<open>loop->nwatchers\<close> with
  \<open>len + 2 \<le> 2^31\<close>, when the reallocation succeeds, \<open>maybe_resize\<close> sets
  \<open>loop->nwatchers\<close> to \<open>next_power_of_two(len + 2) - 2\<close>, which is the least power of
  two at least \<open>len + 2\<close>, less two; the old slots keep their contents, the added slots are
  null and the two trailing slots are carried over (null when there was no table);
  no other field of the loop changes. In particular \<open>next_power_of_two\<close> maps
  1, 2, 3, 513 and \<open>2^31\<close> to 1, 2, 4, 1024 and \<open>2^31\<close>.
\<close>

theorem maybe_resize_next_pow2:
  assumes "nwatchers l < len"
    and "unat len + 2 \<le> 2 ^ 31"
    and "alloc (unat (next_power_of_two (len + 2)))"
  shows "\<exists>l'. maybe_resize alloc l len = Inr l'
      \<and> l' = l\<lparr>watchers := watchers l', nwatchers := nwatchers l'\<rparr>
      \<and> nwatchers l' = next_power_of_two (len + 2) - 2
      \<and> is_next_pow2 (len + 2) (next_power_of_two (len + 2))
      \<and> len \<le> nwatchers l'
      \<and> (\<forall>i<unat (nwatchers l). watchers_at l' i = watchers_at l i)
      \<and> (\<forall>i. unat (nwatchers l) \<le> i \<and> i < unat (nwatchers l') \<longrightarrow> watchers_at l' i = NULL)
      \<and> watchers_at l' (unat (nwatchers l')) =
          (if watchers l = None then NULL else watchers_at l (unat (nwatchers l)))
      \<and> watchers_at l' (unat (nwatchers l') + 1) =
          (if watchers l = None then NULL else watchers_at l (unat (nwatchers l) + 1))
      \<and> next_power_of_two 1 = 1 \<and> next_power_of_two 2 = 2 \<and> next_power_of_two 3 = 4
      \<and> next_power_of_two 513 = 1024 \<and> next_power_of_two (2 ^ 31) = 2 ^ 31"
proof -
  have vals: "next_power_of_two 1 = 1 \<and> next_power_of_two 2 = 2 \<and> next_power_of_two 3 = 4
      \<and> next_power_of_two 513 = 1024 \<and> next_power_of_two (2 ^ 31) = 2 ^ 31"
    by (simp add: next_power_of_two_def)
  from maybe_resize_grows[where alloc=alloc and l=l and len=len, OF assms] vals
  show ?thesis by blast
qed

theorem maybe_resize_next_pow2_witness:
  "nwatchers loop_init < 6 \<and> unat (6 :: u32) + 2 \<le> 2 ^ 31
   \<and> (\<exists>l'. maybe_resize alloc_always loop_init 6 = Inr l' \<and> nwatchers l' = 6
          \<and> is_next_pow2 8 8 \<and> watchers_at l' 5 = NULL \<and> watchers_at l' 6 = NULL
          \<and> watchers_at l' 7 = NULL)"
proof -
  have h: "nwatchers loop_init < 6" "unat (6 :: u32) + 2 \<le> 2 ^ 31"
    by (simp_all add: loop_init_def)
  have n8: "next_power_of_two 8 = 8" by (simp add: next_power_of_two_def)
  have al: "alloc_always (unat (next_power_of_two (6 + 2)))" by simp
  from maybe_resize_next_pow2[where alloc=alloc_always and l=loop_init and len=6, OF h al]
  obtain l' where l': "maybe_resize alloc_always loop_init 6 = Inr l'"
    "nwatchers l' = next_power_of_two (6 + 2) - 2"
    "is_next_pow2 (6 + 2) (next_power_of_two (6 + 2))"
    "\<forall>i. unat (nwatchers loop_init) \<le> i \<and> i < unat (nwatchers l') \<longrightarrow> watchers_at l' i = NULL"
    "watchers_at l' (unat (nwatchers l')) =
          (if watchers loop_init = None then NULL else watchers_at loop_init (unat (nwatchers loop_init)))"
    "watchers_at l' (unat (nwatchers l') + 1) =
          (if watchers loop_init = None then NULL else watchers_at loop_init (unat (nwatchers loop_init) + 1))"
    by blast
  have nw: "nwatchers l' = 6" using l'(2) n8 by simp
  have "watchers_at l' 5 = NULL" using l'(4) nw by (simp add: loop_init_def)
  moreover have "watchers_at l' 6 = NULL" "watchers_at l' 7 = NULL"
    using l'(5,6) nw by (simp_all add: loop_init_def)
  moreover have "is_next_pow2 8 8" using l'(3) n8 by simp
  ultimately show ?thesis using h l'(1) nw by blast
qed

text \<open>
  C7 as stated fails at \<open>len = 2^31 - 1\<close>, the length requested for descriptor
  \<open>INT_MAX - 1\<close>: \<open>next_power_of_two(len + 2)\<close> wraps to 0, which is below its argument,
  and the resize does not produce a table.
\<close>

theorem maybe_resize_next_pow2_counterexample:
  "nwatchers loop_init < 0x7FFFFFFF
   \<and> next_power_of_two (0x7FFFFFFF + 2) = 0
   \<and> \<not> is_next_pow2 (0x7FFFFFFF + 2) (next_power_of_two (0x7FFFFFFF + 2))
   \<and> maybe_resize alloc_always loop_init 0x7FFFFFFF = Inl Undefined_behaviour"
proof -
  have z: "next_power_of_two (0x7FFFFFFF + 2) = 0" by (simp add: next_power_of_two_def)
  have "\<not> is_next_pow2 (0x7FFFFFFF + 2) 0"
  proof
    assume "is_next_pow2 (0x7FFFFFFF + 2) 0"
    then obtain k where "k \<le> 31" "(0 :: u32) = 2 ^ k" unfolding is_next_pow2_def by blast
    then have "unat (0 :: u32) = 2 ^ k" using unat_pow2[of k] by simp
    then show False by simp
  qed
  moreover have "maybe_resize alloc_always loop_init 0x7FFFFFFF = Inl Undefined_behaviour"
    using z by (simp add: maybe_resize_def loop_init_def Let_def)
  ultimately show ?thesis using z by (simp add: loop_init_def)
qed

subsection \<open>C8\<close>

text \<open>
  C8. Whatever the loop state, the run mode and the value of \<open>stop_flag\<close> at entry:
  when \<open>uv_run\<close> returns, \<open>loop->stop_flag\<close> is 0.
\<close>

theorem uv_run_clears_stop_flag:
  assumes "uv_run E fuel s mode sc = Some (Inr (r, s', tr, sc'))"
  shows "stop_flag (loop s') = 0"
  using assms by (rule uv_run_stop_flag)

theorem uv_run_clears_stop_flag_witness:
  "stop_flag (loop (world_pending\<lparr>loop := (loop world_pending)\<lparr>stop_flag := 1\<rparr>\<rparr>)) = 1
   \<and> (\<exists>r s' tr sc'.
         uv_run env_closer 0 (world_pending\<lparr>loop := (loop world_pending)\<lparr>stop_flag := 1\<rparr>\<rparr>)
           UV_RUN_DEFAULT [] = Some (Inr (r, s', tr, sc'))
         \<and> stop_flag (loop s') = 0)
   \<and> (\<exists>r s' tr sc'.
         uv_run env_closer 1 world_pending UV_RUN_NOWAIT [] = Some (Inr (r, s', tr, sc'))
         \<and> length tr = 3 \<and> stop_flag (loop s') = 0)"
proof -
  let ?s = "world_pending\<lparr>loop := (loop world_pending)\<lparr>stop_flag := 1\<rparr>\<rparr>"
  let ?r = "uv_run env_closer 0 ?s UV_RUN_DEFAULT []"
  let ?q = "uv_run env_closer 1 world_pending UV_RUN_NOWAIT []"
  have "map_option (map_sum id (\<lambda>(r, s', tr, sc'). tr)) ?r = Some (Inr [])" by code_simp
  then obtain r s' tr sc' where r: "?r = Some (Inr (r, s', tr, sc'))"
    by (cases ?r; cases "the ?r") auto
  have "map_option (map_sum id (\<lambda>(r, s', tr, sc'). length tr)) ?q = Some (Inr 3)" by code_simp
  then obtain r2 s2 tr2 sc2 where q: "?q = Some (Inr (r2, s2, tr2, sc2))" "length tr2 = 3"
    by (cases ?q; cases "the ?q") auto
  have f: "stop_flag (loop ?s) = 1" by simp
  from uv_run_clears_stop_flag[OF r] uv_run_clears_stop_flag[OF q(1)] r q f
  show ?thesis by blast
qed

subsection \<open>C9\<close>

text \<open>
  C9. When \<open>loop->nfds\<close> is 0, \<open>uv__io_poll\<close> returns at once for every timeout: it leaves
  the memory as it found it (so \<open>loop->time\<close> is not updated), makes no callback and
  does not wait on the backend. The only other outcome is the failure of its assertion
  that \<open>watcher_queue\<close> is empty, which also leaves everything untouched.
\<close>

theorem uv__io_poll_no_fds:
  assumes "nfds (loop s) = 0"
  shows "uv__io_poll E s timeout sc =
     (if watcher_queue (loop s) = [] then Inr (s, [], sc) else Inl Assertion_failed)"
  using assms by (simp add: uv__io_poll_def)

theorem uv__io_poll_no_fds_witness:
  "nfds (loop world_init) = 0
   \<and> uv__io_poll env_quiet world_init (- 1) [(5, Wait_events [])]
       = Inr (world_init, [], [(5, Wait_events [])])"
  using uv__io_poll_no_fds[of world_init env_quiet "- 1" "[(5, Wait_events [])]"]
  by (simp add: world_init_def loop_init_def)

subsection \<open>C10\<close>

text \<open>
  C10. For every non-empty permitted mask, \<open>uv__io_stop\<close> on a watcher whose descriptor
  is \<open>-1\<close>, or is not below \<open>loop->nwatchers\<close>, returns without changing the watcher, the
  loop or anything else.
\<close>

theorem uv__io_stop_unstarted:
  assumes "m AND NOT io_mask = 0" and "m \<noteq> 0"
    and "io_fd (io s w) = - 1 \<or> (0 \<le> sint (io_fd (io s w)) \<and> nwatchers (loop s) \<le> io_fd (io s w))"
  shows "uv__io_stop s w m = Inr s"
  using assms by (rule uv__io_stop_frame)

theorem uv__io_stop_unstarted_witness:
  "POLLIN AND NOT io_mask = 0 \<and> POLLIN \<noteq> 0
   \<and> io_fd (io world_init (Io_watcher 0)) = - 1
   \<and> uv__io_stop world_init (Io_watcher 0) POLLIN = Inr world_init
   \<and> 0 \<le> sint (io_fd (io (world_fd (Io_watcher 0) 5) (Io_watcher 0)))
   \<and> nwatchers (loop (world_fd (Io_watcher 0) 5)) \<le> io_fd (io (world_fd (Io_watcher 0) 5) (Io_watcher 0))
   \<and> uv__io_stop (world_fd (Io_watcher 0) 5) (Io_watcher 0) POLLIN = Inr (world_fd (Io_watcher 0) 5)"
proof -
  have m: "POLLIN AND NOT io_mask = 0" "POLLIN \<noteq> 0"
    by (simp_all add: POLLIN_def io_mask_def POLLOUT_def UV__POLLRDHUP_def UV__POLLPRI_def)
  have a: "io_fd (io world_init (Io_watcher 0)) = - 1" by (simp add: world_init_def)
  have b: "0 \<le> sint (io_fd (io (world_fd (Io_watcher 0) 5) (Io_watcher 0)))"
    "nwatchers (loop (world_fd (Io_watcher 0) 5)) \<le> io_fd (io (world_fd (Io_watcher 0) 5) (Io_watcher 0))"
    by (simp_all add: world_fd_def world_init_def loop_init_def)
  from uv__io_stop_unstarted[OF m, of world_init "Io_watcher 0"] a
  have c: "uv__io_stop world_init (Io_watcher 0) POLLIN = Inr world_init" by blast
  from uv__io_stop_unstarted[OF m, of "world_fd (Io_watcher 0) 5" "Io_watcher 0"] b
  have d: "uv__io_stop (world_fd (Io_watcher 0) 5) (Io_watcher 0) POLLIN = Inr (world_fd (Io_watcher 0) 5)"
    by blast
  from m a b c d show ?thesis by blast
qed

end
